theory Spec2Isabelle
  imports Main "HOL-Library.Word"
begin

unbundle bit_operations_syntax

section \<open>Data model\<close>

text \<open>
  A 128-bit value is a pair of 64-bit words, \<open>hi\<close> and \<open>lo\<close>, with \<open>lo\<close> the
  least-significant half.  \<open>Uint128\<close> (point64.go) reads the pair as an unsigned number,
  \<open>Int128\<close> (int128.go) reads the same layout as two's complement.  Go's \<open>uint64\<close> is
  \<open>64 word\<close>: \<open>+\<close>, \<open>-\<close> and \<open>*\<close> wrap, \<open>push_bit\<close> and \<open>drop_bit\<close> are
  \<open><<\<close> and \<open>>>\<close> (both give 0 for a count of 64 or more, as Go's shifts do).
  A Go \<open>int64\<close> is the same word read by \<open>sint\<close>; the conversions \<open>Uint64(n)\<close> and
  \<open>int64(x)\<close> keep the bits.  A Go \<open>uint\<close> used as a bit count is a \<open>nat\<close>; where the
  source subtracts two of them with no guard in the same function, the wrap-around is
  written out (\<open>uint_sub\<close>).
\<close>

type_synonym uint64 = "64 word"

type_synonym int64 = "64 word"

type_synonym byte = "8 word"

datatype Uint128 = Uint128 (hi: uint64) (lo: uint64)

datatype Int128 = Int128 (ihi: uint64) (ilo: uint64)

text \<open>The number a \<open>Uint128\<close> stands for: \<open>hi * 2^64 + lo\<close>.\<close>

definition u128_val :: "Uint128 \<Rightarrow> int" where
  "u128_val u = uint (hi u) * 2 ^ 64 + uint (lo u)"

text \<open>The number an \<open>Int128\<close> stands for: the pair read as two's complement.\<close>

definition i128_val :: "Int128 \<Rightarrow> int" where
  "i128_val i =
     (let n = uint (ihi i) * 2 ^ 64 + uint (ilo i)
      in if n < 2 ^ 127 then n else n - 2 ^ 128)"

text \<open>The 128 bits of an \<open>Int128\<close>, read as an unsigned number.\<close>

definition i128_bits :: "Int128 \<Rightarrow> int" where
  "i128_bits i = uint (ihi i) * 2 ^ 64 + uint (ilo i)"

text \<open>
  The outcome of a call: \<open>Some (Inr x)\<close> when it returns \<open>x\<close>, \<open>Some (Inl p)\<close> when it
  panics, \<open>None\<close> when it runs forever.
\<close>

datatype panic = DivisionByZero | IntegerDivideByZero | IntegerOverflow | IndexOutOfRange
  | SliceBoundsOutOfRange

type_synonym 'a result = "(panic + 'a) option"

definition ret :: "'a \<Rightarrow> 'a result" where
  "ret x = Some (Inr x)"

definition throw :: "panic \<Rightarrow> 'a result" where
  "throw p = Some (Inl p)"

definition bind_r :: "'a result \<Rightarrow> ('a \<Rightarrow> 'b result) \<Rightarrow> 'b result" where
  "bind_r m f = (case m of None \<Rightarrow> None | Some (Inl p) \<Rightarrow> Some (Inl p) | Some (Inr x) \<Rightarrow> f x)"

text \<open>Subtraction of two Go \<open>uint\<close> values, wrapping at \<open>2^64\<close>.\<close>

definition uint_sub :: "nat \<Rightarrow> nat \<Rightarrow> nat" where
  "uint_sub a b = (if b \<le> a then a - b else a + 2 ^ 64 - b)"

text \<open>The conversion \<open>int(x)\<close> of a Go \<open>uint\<close>: the same 64 bits, read as signed.\<close>

definition uint_to_int :: "nat \<Rightarrow> int" where
  "uint_to_int n = (if n < 2 ^ 63 then int n else int n - 2 ^ 64)"

section \<open>Constants (dmul.go)\<close>

definition maxUint64 :: uint64 where
  "maxUint64 = 0xFFFFFFFFFFFFFFFF"

definition int128SignBit :: uint64 where
  "int128SignBit = 0x8000000000000000"

definition MaxInt128 :: Int128 where
  "MaxInt128 = Int128 0x7FFFFFFFFFFFFFFF 0xFFFFFFFFFFFFFFFF"

definition MinInt128 :: Int128 where
  "MinInt128 = Int128 0x8000000000000000 0"

definition MaxUint128 :: Uint128 where
  "MaxUint128 = Uint128 maxUint64 maxUint64"

definition zeroInt128 :: Int128 where
  "zeroInt128 = Int128 0 0"

definition zeroUint128 :: Uint128 where
  "zeroUint128 = Uint128 0 0"

definition minusOne :: Int128 where
  "minusOne = Int128 0xFFFFFFFFFFFFFFFF 0xFFFFFFFFFFFFFFFF"

definition divAlgoLeading0Spill :: nat where
  "divAlgoLeading0Spill = 16"

section \<open>Primitives of Go's \<open>math/bits\<close>\<close>

text \<open>
  The standard-library functions the engines call, by their documented contracts.
  \<open>Add64\<close>: \<open>sum = x + y + carry\<close>, the carry out is 0 or 1.  \<open>Sub64\<close>:
  \<open>diff = x - y - borrow\<close>, the borrow out is 0 or 1.  \<open>Mul64\<close>: the 128-bit product
  as \<open>(hi, lo)\<close>.  \<open>Div64\<close>: quotient and remainder of \<open>(hi, lo)\<close> by \<open>y\<close>; it panics
  for \<open>y = 0\<close> (division by zero) and for \<open>y \<le> hi\<close> (quotient overflow).
  \<open>LeadingZeros64\<close> and \<open>TrailingZeros64\<close> count zero bits from the top and from the
  bottom; both are 64 for \<open>x = 0\<close>.
\<close>

definition bits_Add64 :: "uint64 \<Rightarrow> uint64 \<Rightarrow> uint64 \<Rightarrow> uint64 \<times> uint64" where
  "bits_Add64 x y carry =
     (x + y + carry, if 2 ^ 64 \<le> uint x + uint y + uint carry then 1 else 0)"

definition bits_Sub64 :: "uint64 \<Rightarrow> uint64 \<Rightarrow> uint64 \<Rightarrow> uint64 \<times> uint64" where
  "bits_Sub64 x y borrow =
     (x - y - borrow, if uint x < uint y + uint borrow then 1 else 0)"

definition bits_Mul64 :: "uint64 \<Rightarrow> uint64 \<Rightarrow> uint64 \<times> uint64" where
  "bits_Mul64 x y =
     (word_of_int ((uint x * uint y) div 2 ^ 64), word_of_int (uint x * uint y))"

definition bits_Div64 :: "uint64 \<Rightarrow> uint64 \<Rightarrow> uint64 \<Rightarrow> panic + (uint64 \<times> uint64)" where
  "bits_Div64 h l y =
     (if y = 0 then Inl IntegerDivideByZero
      else if y \<le> h then Inl IntegerOverflow
      else Inr (word_of_int ((uint h * 2 ^ 64 + uint l) div uint y),
                word_of_int ((uint h * 2 ^ 64 + uint l) mod uint y)))"

primrec clz :: "nat \<Rightarrow> uint64 \<Rightarrow> nat" where
  "clz 0 x = 0"
| "clz (Suc n) x = (if bit x n then 0 else Suc (clz n x))"

definition bits_LeadingZeros64 :: "uint64 \<Rightarrow> nat" where
  "bits_LeadingZeros64 x = clz 64 x"

primrec ctz :: "nat \<Rightarrow> uint64 \<Rightarrow> nat" where
  "ctz 0 x = 0"
| "ctz (Suc n) x = (if bit x 0 then 0 else Suc (ctz n (drop_bit 1 x)))"

definition bits_TrailingZeros64 :: "uint64 \<Rightarrow> nat" where
  "bits_TrailingZeros64 x = ctz 64 x"

text \<open>
  Modelled from the spec: int128.go calls \<open>Add64\<close>, \<open>Sub64\<close> and \<open>Div64\<close>
  unqualified, and their declarations are not among the source files.  The spec describes
  them as "64-bit word addition/subtraction with explicit carry/borrow propagated from lo to
  hi" and names division by zero a fatal contract violation: the contracts of the
  \<open>math/bits\<close> functions the unsigned engine calls in the same places.
\<close>

definition Add64 :: "uint64 \<Rightarrow> uint64 \<Rightarrow> uint64 \<Rightarrow> uint64 \<times> uint64" where
  "Add64 x y carry = bits_Add64 x y carry"

definition Sub64 :: "uint64 \<Rightarrow> uint64 \<Rightarrow> uint64 \<Rightarrow> uint64 \<times> uint64" where
  "Sub64 x y borrow = bits_Sub64 x y borrow"

definition Div64 :: "uint64 \<Rightarrow> uint64 \<Rightarrow> uint64 \<Rightarrow> panic + (uint64 \<times> uint64)" where
  "Div64 h l y = bits_Div64 h l y"

section \<open>Unsigned engine (point64.go)\<close>

definition Uint128From64 :: "uint64 \<Rightarrow> Uint128" where
  "Uint128From64 v = Uint128 0 v"

definition Uint128_AsInt128 :: "Uint128 \<Rightarrow> Int128" where
  "Uint128_AsInt128 u = Int128 (hi u) (lo u)"

definition Uint128_Inc :: "Uint128 \<Rightarrow> Uint128" where
  "Uint128_Inc u =
     (let (vlo, carry) = bits_Add64 (lo u) 1 0 in Uint128 (hi u + carry) vlo)"

definition Uint128_Dec :: "Uint128 \<Rightarrow> Uint128" where
  "Uint128_Dec u =
     (let (vlo, borrowed) = bits_Sub64 (lo u) 1 0 in Uint128 (hi u - borrowed) vlo)"

definition Uint128_Add :: "Uint128 \<Rightarrow> Uint128 \<Rightarrow> Uint128" where
  "Uint128_Add u n =
     (let (vlo, carry) = bits_Add64 (lo u) (lo n) 0;
          (vhi, _) = bits_Add64 (hi u) (hi n) carry
      in Uint128 vhi vlo)"

definition Uint128_Add64 :: "Uint128 \<Rightarrow> uint64 \<Rightarrow> Uint128" where
  "Uint128_Add64 u n =
     (let (vlo, carry) = bits_Add64 (lo u) n 0 in Uint128 (hi u + carry) vlo)"

definition Uint128_Sub :: "Uint128 \<Rightarrow> Uint128 \<Rightarrow> Uint128" where
  "Uint128_Sub u n =
     (let (vlo, borrowed) = bits_Sub64 (lo u) (lo n) 0;
          (vhi, _) = bits_Sub64 (hi u) (hi n) borrowed
      in Uint128 vhi vlo)"

definition Uint128_Sub64 :: "Uint128 \<Rightarrow> uint64 \<Rightarrow> Uint128" where
  "Uint128_Sub64 u n =
     (let (vlo, borrowed) = bits_Sub64 (lo u) n 0 in Uint128 (hi u - borrowed) vlo)"

text \<open>\<open>Cmp\<close> returns a Go \<open>int\<close>; only -1, 0 and 1 occur.\<close>

definition Uint128_Cmp :: "Uint128 \<Rightarrow> Uint128 \<Rightarrow> int" where
  "Uint128_Cmp u n =
     (if hi u = hi n then
        (if lo u > lo n then 1 else if lo u < lo n then -1 else 0)
      else
        (if hi u > hi n then 1 else if hi u < hi n then -1 else 0))"

definition Uint128_Cmp64 :: "Uint128 \<Rightarrow> uint64 \<Rightarrow> int" where
  "Uint128_Cmp64 u n =
     (if hi u > 0 \<or> lo u > n then 1 else if lo u < n then -1 else 0)"

definition Uint128_And :: "Uint128 \<Rightarrow> Uint128 \<Rightarrow> Uint128" where
  "Uint128_And u n = Uint128 (hi u AND hi n) (lo u AND lo n)"

text \<open>
  \<open>Bit\<close> takes a Go \<open>int\<close> index and returns a \<open>uint\<close> that is 0 or 1; an index
  outside \<open>[0, 128)\<close> panics.
\<close>

definition Uint128_Bit :: "Uint128 \<Rightarrow> int \<Rightarrow> panic + uint64" where
  "Uint128_Bit u i =
     (if i < 0 \<or> i \<ge> 128 then Inl IndexOutOfRange
      else if i \<ge> 64 then Inr (drop_bit (nat (i - 64)) (hi u) AND 1)
      else Inr (drop_bit (nat i) (lo u) AND 1))"

definition Uint128_Lsh :: "Uint128 \<Rightarrow> nat \<Rightarrow> Uint128" where
  "Uint128_Lsh u n =
     (if n = 0 then u
      else if n > 64 then Uint128 (push_bit (n - 64) (lo u)) 0
      else if n < 64 then
        Uint128 (push_bit n (hi u) OR drop_bit (64 - n) (lo u)) (push_bit n (lo u))
      else Uint128 (lo u) 0)"

definition Uint128_Rsh :: "Uint128 \<Rightarrow> nat \<Rightarrow> Uint128" where
  "Uint128_Rsh u n =
     (if n = 0 then u
      else if n > 64 then Uint128 0 (drop_bit (n - 64) (hi u))
      else if n < 64 then
        Uint128 (drop_bit n (hi u)) (drop_bit n (lo u) OR push_bit (64 - n) (hi u))
      else Uint128 0 (hi u))"

definition Uint128_Mul :: "Uint128 \<Rightarrow> Uint128 \<Rightarrow> Uint128" where
  "Uint128_Mul u n =
     (let (h, l) = bits_Mul64 (lo u) (lo n)
      in Uint128 (h + (hi u * lo n + lo u * hi n)) l)"

definition Uint128_LeadingZeros :: "Uint128 \<Rightarrow> nat" where
  "Uint128_LeadingZeros u =
     (if hi u = 0 then bits_LeadingZeros64 (lo u) + 64 else bits_LeadingZeros64 (hi u))"

definition Uint128_TrailingZeros :: "Uint128 \<Rightarrow> nat" where
  "Uint128_TrailingZeros u =
     (if lo u = 0 then bits_TrailingZeros64 (hi u) + 64 else bits_TrailingZeros64 (lo u))"

text \<open>
  \<open>RotateLeft\<close> takes a Go \<open>int\<close> (64 bits on the platforms \<open>intSize\<close> selects);
  \<open>uint(k) & 127\<close> keeps the low seven bits of its two's-complement pattern.
\<close>

definition Uint128_RotateLeft :: "Uint128 \<Rightarrow> int64 \<Rightarrow> Uint128" where
  "Uint128_RotateLeft u k =
     (let s = unat (k AND 127)
      in if s > 64 then
           (let s = 128 - s; l = 64 - s
            in Uint128 (drop_bit s (hi u) OR push_bit l (lo u))
                       (drop_bit s (lo u) OR push_bit l (hi u)))
         else
           (let l = 64 - s
            in Uint128 (push_bit s (hi u) OR drop_bit l (lo u))
                       (push_bit s (lo u) OR drop_bit l (hi u))))"

subsection \<open>Division\<close>

text \<open>
  The correction loops \<open>again1\<close> and \<open>again2\<close> of \<open>quo128by64\<close> and
  \<open>quorem128by64\<close> are one loop, run on \<open>(q1, un1)\<close> and then on \<open>(q0, un0)\<close>: while
  the digit estimate \<open>q\<close> is too large it is decremented, \<open>rhat\<close> grows by \<open>vn1\<close>, and
  the loop is left as soon as \<open>rhat\<close> reaches \<open>b\<close>.  It returns the corrected \<open>q\<close>
  (and \<open>rhat\<close>).
\<close>

partial_function (option) again ::
  "uint64 \<Rightarrow> uint64 \<Rightarrow> uint64 \<Rightarrow> uint64 \<Rightarrow> uint64 \<Rightarrow> uint64 \<Rightarrow> uint64 \<Rightarrow> uint64
   \<Rightarrow> (uint64 \<times> uint64) result" where
  "again b vn1 vn0 un q rhat left right =
     (if q \<ge> b \<or> left > right then
        (if rhat + vn1 < b then
           again b vn1 vn0 un (q - 1) (rhat + vn1) (left - vn0)
             (push_bit 32 (rhat + vn1) OR un)
         else Some (Inr (q - 1, rhat + vn1)))
      else Some (Inr (q, rhat)))"

text \<open>Hacker's Delight 9-4, \<open>divlu\<close>: the quotient only.\<close>

definition quo128by64 :: "uint64 \<Rightarrow> uint64 \<Rightarrow> uint64 \<Rightarrow> nat \<Rightarrow> uint64 result" where
  "quo128by64 u1 u0 v vLeading0 =
     (let b = push_bit 32 1;
          vs = push_bit vLeading0 v;
          vn1 = drop_bit 32 vs;
          vn0 = vs AND 0xffffffff;
          un32 = (if vLeading0 > 0
                  then push_bit vLeading0 u1 OR drop_bit (uint_sub 64 vLeading0) u0 else u1);
          un10 = (if vLeading0 > 0 then push_bit vLeading0 u0 else u0);
          un1 = drop_bit 32 un10;
          un0 = un10 AND 0xffffffff
      in if vn1 = 0 then throw IntegerDivideByZero
         else
           bind_r
             (again b vn1 vn0 un1 (un32 div vn1) (un32 mod vn1)
                ((un32 div vn1) * vn0) (push_bit 32 (un32 mod vn1) OR un1))
             (\<lambda>(q1, rhat).
                let un21 = push_bit 32 un32 + (un1 - q1 * vs)
                in bind_r
                     (again b vn1 vn0 un0 (un21 div vn1) (un21 mod vn1)
                        ((un21 div vn1) * vn0) (push_bit 32 (un21 mod vn1) OR un0))
                     (\<lambda>(q0, rhat). ret (push_bit 32 q1 OR q0))))"

text \<open>Hacker's Delight 9-4, \<open>divlu\<close>: quotient and remainder.\<close>

definition quorem128by64 ::
  "uint64 \<Rightarrow> uint64 \<Rightarrow> uint64 \<Rightarrow> nat \<Rightarrow> (uint64 \<times> uint64) result" where
  "quorem128by64 u1 u0 v0 vLeading0 =
     (let b = push_bit 32 1;
          v = push_bit vLeading0 v0;
          vn1 = drop_bit 32 v;
          vn0 = v AND 0xffffffff;
          un32 = (if vLeading0 > 0
                  then push_bit vLeading0 u1 OR drop_bit (uint_sub 64 vLeading0) u0 else u1);
          un10 = (if vLeading0 > 0 then push_bit vLeading0 u0 else u0);
          un1 = drop_bit 32 un10;
          un0 = un10 AND 0xffffffff
      in if vn1 = 0 then throw IntegerDivideByZero
         else
           bind_r
             (again b vn1 vn0 un1 (un32 div vn1) (un32 mod vn1)
                ((un32 div vn1) * vn0) (push_bit 32 (un32 mod vn1) + un1))
             (\<lambda>(q1, rhat).
                let un21 = push_bit 32 un32 + (un1 - q1 * v)
                in bind_r
                     (again b vn1 vn0 un0 (un21 div vn1) (un21 mod vn1)
                        ((un21 div vn1) * vn0) (push_bit 32 (un21 mod vn1) OR un0))
                     (\<lambda>(q0, rhat).
                        ret (push_bit 32 q1 OR q0,
                             drop_bit vLeading0 (push_bit 32 un21 + (un0 - q0 * v))))))"

definition quorem128by128 ::
  "Uint128 \<Rightarrow> Uint128 \<Rightarrow> nat \<Rightarrow> nat \<Rightarrow> (Uint128 \<times> Uint128) result" where
  "quorem128by128 m v vHiLeading0 vLoLeading0 =
     (if hi v = 0 then
        (if hi m < lo v then
           bind_r (quorem128by64 (hi m) (lo m) (lo v) vLoLeading0)
             (\<lambda>(qlo, rlo). ret (Uint128 0 qlo, Uint128 0 rlo))
         else if lo v = 0 then throw IntegerDivideByZero
         else
           bind_r (quorem128by64 (hi m mod lo v) (lo m) (lo v) vLoLeading0)
             (\<lambda>(qlo, rlo). ret (Uint128 (hi m div lo v) qlo, Uint128 0 rlo)))
      else
        (let v1 = Uint128_Lsh v vHiLeading0;
             u1 = Uint128_Rsh m 1
         in bind_r (quo128by64 (hi u1) (lo u1) (hi v1) vLoLeading0)
              (\<lambda>q1lo.
                 let q1 = Uint128_Rsh (Uint128 0 q1lo) (uint_sub 63 vHiLeading0);
                     q1 = (if hi q1 OR lo q1 \<noteq> 0 then Uint128_Dec q1 else q1);
                     q = q1;
                     q1 = Uint128_Mul q1 v;
                     r = Uint128_Sub m q1
                 in if Uint128_Cmp r v \<ge> 0
                    then ret (Uint128_Inc q, Uint128_Sub r v)
                    else ret (q, r))))"

text \<open>
  The loop of \<open>quorem128bin\<close> (and of \<open>quo128bin\<close>, which is the same loop):
  shift \<open>q\<close> left, subtract \<open>by\<close> from \<open>u\<close> when it fits, halve \<open>by\<close>, and leave when
  the Go \<open>int\<close> counter \<open>shift\<close> is no longer positive.
\<close>

function bin_loop :: "Uint128 \<Rightarrow> Uint128 \<Rightarrow> Uint128 \<Rightarrow> int \<Rightarrow> Uint128 \<times> Uint128" where
  "bin_loop u byv q shift =
     (let q = Uint128 (push_bit 1 (hi q) OR drop_bit 63 (lo q)) (push_bit 1 (lo q));
          fits = (hi u > hi byv \<or> (hi u = hi byv \<and> lo u \<ge> lo byv));
          u = (if fits then Uint128_Sub u byv else u);
          q = (if fits then Uint128 (hi q) (lo q OR 1) else q);
          byv = Uint128 (drop_bit 1 (hi byv)) (drop_bit 1 (lo byv) OR push_bit 63 (hi byv))
      in if shift \<le> 0 then (q, u) else bin_loop u byv q (shift - 1))"
  by pat_completeness auto
termination
  by (relation "measure (\<lambda>(u, byv, q, shift). nat shift)") auto

declare bin_loop.simps [simp del]

definition quorem128bin :: "Uint128 \<Rightarrow> Uint128 \<Rightarrow> nat \<Rightarrow> nat \<Rightarrow> Uint128 \<times> Uint128" where
  "quorem128bin u byv uLeading0 byLeading0 =
     (let shift = uint_to_int (uint_sub byLeading0 uLeading0);
          byv = Uint128_Lsh byv (uint_sub byLeading0 uLeading0)
      in bin_loop u byv (Uint128 0 0) shift)"

definition quo128bin :: "Uint128 \<Rightarrow> Uint128 \<Rightarrow> nat \<Rightarrow> nat \<Rightarrow> Uint128" where
  "quo128bin u byv uLeading0 byLeading0 =
     (let shift = uint_to_int (uint_sub byLeading0 uLeading0);
          byv = Uint128_Lsh byv (uint_sub byLeading0 uLeading0)
      in fst (bin_loop u byv (Uint128 0 0) shift))"

definition Uint128_QuoRem :: "Uint128 \<Rightarrow> Uint128 \<Rightarrow> (Uint128 \<times> Uint128) result" where
  "Uint128_QuoRem u byv =
     (if lo byv = 0 \<and> hi byv = 0 then throw DivisionByZero
      else if hi u OR hi byv = 0 then
        (if lo byv = 0 then throw IntegerDivideByZero
         else ret (Uint128 0 (lo u div lo byv), Uint128 0 (lo u mod lo byv)))
      else
        (let byLoLeading0 = (if hi byv = 0 then bits_LeadingZeros64 (lo byv) else 0);
             byHiLeading0 = (if hi byv = 0 then 64 else bits_LeadingZeros64 (hi byv));
             byLeading0 = (if hi byv = 0 then byLoLeading0 + 64 else byHiLeading0)
         in if byLeading0 = 127 then ret (u, Uint128 0 0)
            else
              (let byTrailing0 = Uint128_TrailingZeros byv
               in if byLeading0 + byTrailing0 = 127 then
                    ret (Uint128_Rsh u byTrailing0, Uint128_And (Uint128_Dec byv) u)
                  else if Uint128_Cmp u byv < 0 then ret (Uint128 0 0, u)
                  else if Uint128_Cmp u byv = 0 then ret (Uint128 0 1, Uint128 0 0)
                  else
                    (let uLeading0 = Uint128_LeadingZeros u
                     in if uint_sub byLeading0 uLeading0 > divAlgoLeading0Spill
                        then quorem128by128 u byv byHiLeading0 byLoLeading0
                        else ret (quorem128bin u byv uLeading0 byLeading0)))))"

definition Uint128_Quo :: "Uint128 \<Rightarrow> Uint128 \<Rightarrow> Uint128 result" where
  "Uint128_Quo u byv =
     (if lo byv = 0 \<and> hi byv = 0 then throw DivisionByZero
      else if hi u OR hi byv = 0 then
        (if lo byv = 0 then throw IntegerDivideByZero
         else ret (Uint128 0 (lo u div lo byv)))
      else
        (let byLoLeading0 = (if hi byv = 0 then bits_LeadingZeros64 (lo byv) else 0);
             byHiLeading0 = (if hi byv = 0 then 64 else bits_LeadingZeros64 (hi byv));
             byLeading0 = (if hi byv = 0 then byLoLeading0 + 64 else byHiLeading0)
         in if byLeading0 = 127 then ret u
            else
              (let byTrailing0 = Uint128_TrailingZeros byv
               in if byLeading0 + byTrailing0 = 127 then ret (Uint128_Rsh u byTrailing0)
                  else if Uint128_Cmp u byv < 0 then ret (Uint128 0 0)
                  else if Uint128_Cmp u byv = 0 then ret (Uint128 0 1)
                  else
                    (let uLeading0 = Uint128_LeadingZeros u
                     in if uint_sub byLeading0 uLeading0 > divAlgoLeading0Spill
                        then bind_r (quorem128by128 u byv byHiLeading0 byLoLeading0)
                               (\<lambda>(q, r). ret q)
                        else ret (quo128bin u byv uLeading0 byLeading0)))))"

definition Uint128_Rem :: "Uint128 \<Rightarrow> Uint128 \<Rightarrow> Uint128 result" where
  "Uint128_Rem u byv = bind_r (Uint128_QuoRem u byv) (\<lambda>(q, r). ret r)"

text \<open>A panic of a \<open>math/bits\<close> call is a panic of the caller.\<close>

definition call :: "panic + 'a \<Rightarrow> 'a result" where
  "call x = Some x"

definition Uint128_Quo64 :: "Uint128 \<Rightarrow> uint64 \<Rightarrow> Uint128 result" where
  "Uint128_Quo64 u byv =
     (if hi u < byv then
        bind_r (call (bits_Div64 (hi u) (lo u) byv)) (\<lambda>(qlo, _). ret (Uint128 0 qlo))
      else if byv = 0 then throw IntegerDivideByZero
      else
        bind_r (call (bits_Div64 (hi u mod byv) (lo u) byv))
          (\<lambda>(qlo, _). ret (Uint128 (hi u div byv) qlo)))"

definition Uint128_QuoRem64 :: "Uint128 \<Rightarrow> uint64 \<Rightarrow> (Uint128 \<times> Uint128) result" where
  "Uint128_QuoRem64 u byv =
     (if hi u < byv then
        bind_r (call (bits_Div64 (hi u) (lo u) byv))
          (\<lambda>(qlo, rlo). ret (Uint128 0 qlo, Uint128 0 rlo))
      else
        bind_r (call (bits_Div64 0 (hi u) byv))
          (\<lambda>(qhi, rlo).
             bind_r (call (bits_Div64 rlo (lo u) byv))
               (\<lambda>(qlo, rlo). ret (Uint128 qhi qlo, Uint128 0 rlo))))"

definition Uint128_Rem64 :: "Uint128 \<Rightarrow> uint64 \<Rightarrow> Uint128 result" where
  "Uint128_Rem64 u byv =
     (if hi u < byv then
        bind_r (call (bits_Div64 (hi u) (lo u) byv)) (\<lambda>(_, rlo). ret (Uint128 0 rlo))
      else
        bind_r (call (bits_Div64 0 (hi u) byv))
          (\<lambda>(_, rlo).
             bind_r (call (bits_Div64 rlo (lo u) byv))
               (\<lambda>(_, rlo). ret (Uint128 0 rlo))))"

subsection \<open>Byte encoding\<close>

text \<open>
  A byte slice is a list of bytes.  \<open>_ = b[15]\<close> panics when the slice has fewer than 16
  elements; \<open>PutBigEndian\<close> and \<open>PutLittleEndian\<close> return the slice as written.
\<close>

definition Uint128_PutBigEndian :: "Uint128 \<Rightarrow> byte list \<Rightarrow> panic + byte list" where
  "Uint128_PutBigEndian u b =
     (if length b \<le> 15 then Inl IndexOutOfRange
      else Inr (b[0 := ucast (drop_bit 56 (hi u)), 1 := ucast (drop_bit 48 (hi u)),
                  2 := ucast (drop_bit 40 (hi u)), 3 := ucast (drop_bit 32 (hi u)),
                  4 := ucast (drop_bit 24 (hi u)), 5 := ucast (drop_bit 16 (hi u)),
                  6 := ucast (drop_bit 8 (hi u)), 7 := ucast (hi u),
                  8 := ucast (drop_bit 56 (lo u)), 9 := ucast (drop_bit 48 (lo u)),
                  10 := ucast (drop_bit 40 (lo u)), 11 := ucast (drop_bit 32 (lo u)),
                  12 := ucast (drop_bit 24 (lo u)), 13 := ucast (drop_bit 16 (lo u)),
                  14 := ucast (drop_bit 8 (lo u)), 15 := ucast (lo u)]))"

definition MustUint128FromBigEndian :: "byte list \<Rightarrow> panic + Uint128" where
  "MustUint128FromBigEndian b =
     (if length b \<le> 15 then Inl IndexOutOfRange
      else Inr (Uint128
        (ucast (b ! 7) OR push_bit 8 (ucast (b ! 6)) OR push_bit 16 (ucast (b ! 5))
           OR push_bit 24 (ucast (b ! 4)) OR push_bit 32 (ucast (b ! 3))
           OR push_bit 40 (ucast (b ! 2)) OR push_bit 48 (ucast (b ! 1))
           OR push_bit 56 (ucast (b ! 0)))
        (ucast (b ! 15) OR push_bit 8 (ucast (b ! 14)) OR push_bit 16 (ucast (b ! 13))
           OR push_bit 24 (ucast (b ! 12)) OR push_bit 32 (ucast (b ! 11))
           OR push_bit 40 (ucast (b ! 10)) OR push_bit 48 (ucast (b ! 9))
           OR push_bit 56 (ucast (b ! 8)))))"

definition Uint128_PutLittleEndian :: "Uint128 \<Rightarrow> byte list \<Rightarrow> panic + byte list" where
  "Uint128_PutLittleEndian u b =
     (if length b \<le> 15 then Inl IndexOutOfRange
      else Inr (b[0 := ucast (lo u), 1 := ucast (drop_bit 8 (lo u)),
                  2 := ucast (drop_bit 16 (lo u)), 3 := ucast (drop_bit 24 (lo u)),
                  4 := ucast (drop_bit 32 (lo u)), 5 := ucast (drop_bit 40 (lo u)),
                  6 := ucast (drop_bit 48 (lo u)), 7 := ucast (drop_bit 56 (lo u)),
                  8 := ucast (hi u), 9 := ucast (drop_bit 8 (hi u)),
                  10 := ucast (drop_bit 16 (hi u)), 11 := ucast (drop_bit 24 (hi u)),
                  12 := ucast (drop_bit 32 (hi u)), 13 := ucast (drop_bit 40 (hi u)),
                  14 := ucast (drop_bit 48 (hi u)), 15 := ucast (drop_bit 56 (hi u))]))"

definition MustUint128FromLittleEndian :: "byte list \<Rightarrow> panic + Uint128" where
  "MustUint128FromLittleEndian b =
     (if length b \<le> 15 then Inl IndexOutOfRange
      else Inr (Uint128
        (ucast (b ! 8) OR push_bit 8 (ucast (b ! 9)) OR push_bit 16 (ucast (b ! 10))
           OR push_bit 24 (ucast (b ! 11)) OR push_bit 32 (ucast (b ! 12))
           OR push_bit 40 (ucast (b ! 13)) OR push_bit 48 (ucast (b ! 14))
           OR push_bit 56 (ucast (b ! 15)))
        (ucast (b ! 0) OR push_bit 8 (ucast (b ! 1)) OR push_bit 16 (ucast (b ! 2))
           OR push_bit 24 (ucast (b ! 3)) OR push_bit 32 (ucast (b ! 4))
           OR push_bit 40 (ucast (b ! 5)) OR push_bit 48 (ucast (b ! 6))
           OR push_bit 56 (ucast (b ! 7)))))"

section \<open>Signed engine (int128.go)\<close>

definition Int128FromInt64 :: "int64 \<Rightarrow> Int128" where
  "Int128FromInt64 v = Int128 (if sint v < 0 then maxUint64 else 0) v"

definition Int128_AsUint128 :: "Int128 \<Rightarrow> Uint128" where
  "Int128_AsUint128 i = Uint128 (ihi i) (ilo i)"

definition Int128_Add :: "Int128 \<Rightarrow> Int128 \<Rightarrow> Int128" where
  "Int128_Add i n =
     (let (vlo, carry) = Add64 (ilo i) (ilo n) 0;
          (vhi, _) = Add64 (ihi i) (ihi n) carry
      in Int128 vhi vlo)"

definition Int128_Add64 :: "Int128 \<Rightarrow> int64 \<Rightarrow> Int128" where
  "Int128_Add64 i n =
     (let (vlo, carry) = Add64 (ilo i) n 0
      in if sint n < 0 then Int128 (ihi i + maxUint64 + carry) vlo
         else Int128 (ihi i + carry) vlo)"

definition Int128_Sub :: "Int128 \<Rightarrow> Int128 \<Rightarrow> Int128" where
  "Int128_Sub i n =
     (let (vlo, borrowed) = Sub64 (ilo i) (ilo n) 0;
          (vhi, _) = Sub64 (ihi i) (ihi n) borrowed
      in Int128 vhi vlo)"

definition Int128_Sub64 :: "Int128 \<Rightarrow> int64 \<Rightarrow> Int128" where
  "Int128_Sub64 i n =
     (if sint n < 0 then
        (let (vlo, borrowed) = Sub64 (ilo i) n 0
         in Int128 (ihi i - maxUint64 - borrowed) vlo)
      else
        (let (vlo, borrowed) = Sub64 (ilo i) n 0
         in Int128 (ihi i - borrowed) vlo))"

definition Int128_Neg :: "Int128 \<Rightarrow> Int128" where
  "Int128_Neg i =
     (if ihi i = 0 \<and> ilo i = 0 then Int128 0 0
      else if i = MinInt128 then i
      else
        (let v = (if ihi i AND int128SignBit \<noteq> 0
                  then Int128 (NOT (ihi i)) (NOT (ilo i - 1))
                  else Int128 (NOT (ihi i)) (NOT (ilo i) + 1))
         in if ilo v = 0 then Int128 (ihi v + 1) (ilo v) else v))"

definition Int128_Cmp :: "Int128 \<Rightarrow> Int128 \<Rightarrow> int" where
  "Int128_Cmp i n =
     (if ihi i = ihi n \<and> ilo i = ilo n then 0
      else if ihi i AND int128SignBit = ihi n AND int128SignBit then
        (if ihi i > ihi n \<or> (ihi i = ihi n \<and> ilo i > ilo n) then 1 else -1)
      else if ihi i AND int128SignBit = 0 then 1
      else -1)"

definition Int128_Cmp64 :: "Int128 \<Rightarrow> int64 \<Rightarrow> int" where
  "Int128_Cmp64 i n =
     (let nlo = n; nhi = (if sint n < 0 then maxUint64 else 0)
      in if ihi i = nhi \<and> ilo i = nlo then 0
         else if ihi i AND int128SignBit = nhi AND int128SignBit then
           (if ihi i > nhi \<or> (ihi i = nhi \<and> ilo i > nlo) then 1 else -1)
         else if ihi i AND int128SignBit = 0 then 1
         else -1)"

definition Int128_LessThan :: "Int128 \<Rightarrow> Int128 \<Rightarrow> bool" where
  "Int128_LessThan i n =
     (if ihi i AND int128SignBit = ihi n AND int128SignBit then
        ihi i < ihi n \<or> (ihi i = ihi n \<and> ilo i < ilo n)
      else if ihi i AND int128SignBit \<noteq> 0 then True
      else False)"

text \<open>
  \<open>qSign\<close> and \<open>rSign\<close> of the source are 1 or -1; here \<open>qneg\<close> and \<open>rneg\<close> say
  whether they are -1.
\<close>

definition Int128_QuoRem :: "Int128 \<Rightarrow> Int128 \<Rightarrow> (Int128 \<times> Int128) result" where
  "Int128_QuoRem i byv =
     (let ineg = Int128_LessThan i zeroInt128;
          i = (if ineg then Int128_Neg i else i);
          byneg = Int128_LessThan byv zeroInt128;
          qneg = (if byneg then \<not> ineg else ineg);
          rneg = ineg;
          byv = (if byneg then Int128_Neg byv else byv)
      in bind_r (Uint128_QuoRem (Int128_AsUint128 i) (Int128_AsUint128 byv))
           (\<lambda>(qu, ru).
              let q = Uint128_AsInt128 qu; r = Uint128_AsInt128 ru
              in ret (if qneg then Int128_Neg q else q, if rneg then Int128_Neg r else r)))"

definition Int128_Quo :: "Int128 \<Rightarrow> Int128 \<Rightarrow> Int128 result" where
  "Int128_Quo i byv =
     (let ineg = Int128_LessThan i zeroInt128;
          i = (if ineg then Int128_Neg i else i);
          byneg = Int128_LessThan byv zeroInt128;
          qneg = (if byneg then \<not> ineg else ineg);
          byv = (if byneg then Int128_Neg byv else byv)
      in bind_r (Uint128_Quo (Int128_AsUint128 i) (Int128_AsUint128 byv))
           (\<lambda>qu. let q = Uint128_AsInt128 qu in ret (if qneg then Int128_Neg q else q)))"

definition Int128_Rem :: "Int128 \<Rightarrow> Int128 \<Rightarrow> Int128 result" where
  "Int128_Rem i byv = bind_r (Int128_QuoRem i byv) (\<lambda>(q, r). ret r)"

definition Int128_QuoRem64 :: "Int128 \<Rightarrow> int64 \<Rightarrow> (Int128 \<times> Int128) result" where
  "Int128_QuoRem64 i byv =
     (let ineg = (ihi i AND int128SignBit \<noteq> 0);
          i = (if ineg then Int128_Neg i else i);
          byneg = (sint byv < 0);
          byv = (if byneg then - byv else byv);
          n = byv
      in bind_r
           (if ihi i < n then
              bind_r (call (Div64 (ihi i) (ilo i) n))
                (\<lambda>(qlo, rlo). ret (Int128 0 qlo, Int128 0 rlo))
            else
              bind_r (call (Div64 0 (ihi i) n))
                (\<lambda>(qhi, rlo).
                   bind_r (call (Div64 rlo (ilo i) n))
                     (\<lambda>(qlo, rlo). ret (Int128 qhi qlo, Int128 0 rlo))))
           (\<lambda>(q, r).
              ret (if ineg \<noteq> byneg then Int128_Neg q else q,
                   if ineg then Int128_Neg r else r)))"

definition Int128_Quo64 :: "Int128 \<Rightarrow> int64 \<Rightarrow> Int128 result" where
  "Int128_Quo64 i byv =
     (let ineg = (ihi i AND int128SignBit \<noteq> 0);
          i = (if ineg then Int128_Neg i else i);
          byneg = (sint byv < 0);
          byv = (if byneg then - byv else byv);
          n = byv
      in bind_r
           (if ihi i < n then
              bind_r (call (Div64 (ihi i) (ilo i) n)) (\<lambda>(qlo, _). ret (Int128 0 qlo))
            else
              bind_r (call (Div64 0 (ihi i) n))
                (\<lambda>(qhi, rlo).
                   bind_r (call (Div64 rlo (ilo i) n))
                     (\<lambda>(qlo, _). ret (Int128 qhi qlo))))
           (\<lambda>q. ret (if ineg \<noteq> byneg then Int128_Neg q else q)))"

definition Int128_Rem64 :: "Int128 \<Rightarrow> int64 \<Rightarrow> Int128 result" where
  "Int128_Rem64 i byv =
     (let ineg = (ihi i AND int128SignBit \<noteq> 0);
          i = (if ineg then Int128_Neg i else i);
          byv = (if sint byv < 0 then - byv else byv);
          n = byv
      in bind_r
           (if ihi i < n then
              bind_r (call (Div64 (ihi i) (ilo i) n)) (\<lambda>(_, rlo). ret (Int128 0 rlo))
            else
              bind_r (call (Div64 0 (ihi i) n))
                (\<lambda>(_, rlo).
                   bind_r (call (Div64 rlo (ilo i) n))
                     (\<lambda>(_, rlo). ret (Int128 0 rlo))))
           (\<lambda>r. ret (if ineg then Int128_Neg r else r)))"

section \<open>Text and JSON encoding (point64.go, int128.go)\<close>

text \<open>
  The errors the decoders return as values, and what a decoder can end with besides a
  value: a run-time panic or a returned error.
\<close>

datatype err = InvalidString | InvalidJSON

datatype failure = Panic panic | Error err

definition maxInt128AsUint128 :: Uint128 where
  "maxInt128AsUint128 = Uint128 0x7FFFFFFFFFFFFFFF 0xFFFFFFFFFFFFFFFF"

definition minInt128AsAbsUint128 :: Uint128 where
  "minInt128AsAbsUint128 = Uint128 0x8000000000000000 0"

definition maxBigUint128 :: int where
  "maxBigUint128 = 340282366920938463463374607431768211455"

text \<open>
  \<open>new(big.Int).SetString(s, 10)\<close>: an optional sign \<open>+\<close> or \<open>-\<close> followed by one or more
  decimal digits, and nothing else; the whole string must be consumed.  A \<open>big.Int\<close> is
  an \<open>int\<close>.
\<close>

definition digit_of :: "char \<Rightarrow> nat option" where
  "digit_of c = (let n = (of_char c :: nat) in if 48 \<le> n \<and> n \<le> 57 then Some (n - 48) else None)"

fun scan_digits :: "nat \<Rightarrow> string \<Rightarrow> nat option" where
  "scan_digits acc [] = Some acc"
| "scan_digits acc (c # cs) =
     (case digit_of c of None \<Rightarrow> None | Some d \<Rightarrow> scan_digits (acc * 10 + d) cs)"

definition big_SetString10 :: "string \<Rightarrow> int option" where
  "big_SetString10 s =
     (case s of
        [] \<Rightarrow> None
      | c # cs \<Rightarrow>
          (let neg = (c = CHR ''-'');
               ds = (if c = CHR ''-'' \<or> c = CHR ''+'' then cs else s)
           in if ds = [] then None
              else map_option (\<lambda>n. if neg then - int n else int n) (scan_digits 0 ds)))"

text \<open>
  \<open>v.Bits()\<close>: the absolute value of \<open>v\<close> as little-endian machine words without leading
  zero words, 64 bits each on the platforms where \<open>intSize\<close> is 64.
\<close>

function big_words :: "nat \<Rightarrow> uint64 list" where
  "big_words n = (if n = 0 then [] else of_nat (n mod 2 ^ 64) # big_words (n div 2 ^ 64))"
  by pat_completeness auto
termination
  by (relation "measure id") simp_all

declare big_words.simps [simp del]

definition big_Bits :: "int \<Rightarrow> uint64 list" where
  "big_Bits v = big_words (nat \<bar>v\<bar>)"

text \<open>
  Decimal digits of a natural number, as \<open>strconv.FormatUint(_, 10)\<close> and
  \<open>(*big.Int).String\<close> print them; the latter puts \<open>-\<close> before a negative number.
\<close>

function digits10 :: "nat \<Rightarrow> string" where
  "digits10 n =
     (if n < 10 then [''0123456789'' ! n]
      else digits10 (n div 10) @ [''0123456789'' ! (n mod 10)])"
  by pat_completeness auto
termination
  by (relation "measure id") simp_all

declare digits10.simps [simp del]

definition big_String :: "int \<Rightarrow> string" where
  "big_String v = (if v < 0 then CHR ''-'' # digits10 (nat (- v)) else digits10 (nat v))"

text \<open>
  \<open>Uint128FromBigInt\<close>, the branch \<open>case 64\<close> of the switch on \<open>intSize\<close>.  The named
  result \<open>out\<close> is the zero value when the function returns it untouched.
\<close>

definition Uint128FromBigInt :: "int \<Rightarrow> Uint128 \<times> bool" where
  "Uint128FromBigInt v =
     (if v < 0 then (Uint128 0 0, False)
      else
        (let words = big_Bits v; lw = length words
         in if lw = 0 then (Uint128 0 0, True)
            else if lw = 1 then (Uint128 0 (words ! 0), True)
            else if lw = 2 then (Uint128 (words ! 1) (words ! 0), True)
            else (MaxUint128, False)))"

definition Uint128FromString :: "string \<Rightarrow> err + Uint128 \<times> bool" where
  "Uint128FromString s =
     (case big_SetString10 s of
        None \<Rightarrow> Inl InvalidString
      | Some b \<Rightarrow> Inr (Uint128FromBigInt b))"

text \<open>
  \<open>AsBigInt\<close> through \<open>IntoBigInt\<close>, \<open>case 64\<close>: the two words \<open>bits[0] = lo\<close> and
  \<open>bits[1] = hi\<close> are handed to \<open>SetBits\<close>.
\<close>

definition Uint128_AsBigInt :: "Uint128 \<Rightarrow> int" where
  "Uint128_AsBigInt u = uint (lo u) + uint (hi u) * 2 ^ 64"

definition Uint128_String :: "Uint128 \<Rightarrow> string" where
  "Uint128_String u =
     (if lo u = 0 \<and> hi u = 0 then ''0''
      else if hi u = 0 then digits10 (unat (lo u))
      else big_String (Uint128_AsBigInt u))"

definition Uint128_MarshalText :: "Uint128 \<Rightarrow> string" where
  "Uint128_MarshalText u = Uint128_String u"

text \<open>
  The decoders assign the parsed value to the receiver and return \<open>nil\<close>; here they return
  the value.  The second result of \<open>Uint128FromString\<close> is bound to \<open>_\<close>.
\<close>

definition Uint128_UnmarshalText :: "string \<Rightarrow> err + Uint128" where
  "Uint128_UnmarshalText bts =
     (case Uint128FromString bts of
        Inl e \<Rightarrow> Inl e
      | Inr (v, _) \<Rightarrow> Inr v)"

definition Uint128_MarshalJSON :: "Uint128 \<Rightarrow> string" where
  "Uint128_MarshalJSON u = [CHR 0x22] @ Uint128_String u @ [CHR 0x22]"

text \<open>
  \<open>bts[0]\<close> panics on an empty payload and \<open>bts[1 : ln-1]\<close> on the payload that is a single
  quote character.
\<close>

definition Uint128_UnmarshalJSON :: "string \<Rightarrow> failure + Uint128" where
  "Uint128_UnmarshalJSON bts =
     (if bts = [] then Inl (Panic IndexOutOfRange)
      else if bts ! 0 = CHR 0x22 then
        (let ln = length bts
         in if bts ! (ln - 1) \<noteq> CHR 0x22 then Inl (Error InvalidJSON)
            else if ln - 1 < 1 then Inl (Panic SliceBoundsOutOfRange)
            else
              (case Uint128FromString (drop 1 (take (ln - 1) bts)) of
                 Inl e \<Rightarrow> Inl (Error e)
               | Inr (v, _) \<Rightarrow> Inr v))
      else
        (case Uint128FromString bts of
           Inl e \<Rightarrow> Inl (Error e)
         | Inr (v, _) \<Rightarrow> Inr v))"

definition Int128FromBigInt :: "int \<Rightarrow> Int128 \<times> bool" where
  "Int128FromBigInt v =
     (let neg = (v < 0);
          words = big_Bits v;
          lw = length words;
          (u, accurate) =
            (if lw = 0 then (Uint128 0 0, True)
             else if lw = 1 then (Uint128 0 (words ! 0), True)
             else if lw = 2 then (Uint128 (words ! 1) (words ! 0), True)
             else (MaxUint128, False))
      in if \<not> neg then
           (let cmp = Uint128_Cmp u maxInt128AsUint128
            in if cmp = 0 then (MaxInt128, accurate)
               else if cmp > 0 then (MaxInt128, False)
               else (Uint128_AsInt128 u, accurate))
         else
           (let cmp = Uint128_Cmp u minInt128AsAbsUint128
            in if cmp = 0 then (MinInt128, accurate)
               else if cmp > 0 then (MinInt128, False)
               else (Int128_Neg (Uint128_AsInt128 u), accurate)))"

definition Int128FromString :: "string \<Rightarrow> err + Int128 \<times> bool" where
  "Int128FromString s =
     (case big_SetString10 s of
        None \<Rightarrow> Inl InvalidString
      | Some b \<Rightarrow> Inr (Int128FromBigInt b))"

text \<open>
  \<open>Int128.AsBigInt\<close>: the unsigned reading of the two words, and for a set sign bit
  \<open>b.Xor(b, maxBigUint128).Add(b, big1).Neg(b)\<close>.
\<close>

definition Int128_AsBigInt :: "Int128 \<Rightarrow> int" where
  "Int128_AsBigInt i =
     (let neg = (ihi i AND int128SignBit \<noteq> 0);
          b = (if ihi i > 0 then push_bit 64 (uint (ihi i)) else 0) + uint (ilo i)
      in if neg then - ((b XOR maxBigUint128) + 1) else b)"

definition Int128_String :: "Int128 \<Rightarrow> string" where
  "Int128_String i = big_String (Int128_AsBigInt i)"

definition Int128_MarshalText :: "Int128 \<Rightarrow> string" where
  "Int128_MarshalText i = Int128_String i"

definition Int128_UnmarshalText :: "string \<Rightarrow> err + Int128" where
  "Int128_UnmarshalText bts =
     (case Int128FromString bts of
        Inl e \<Rightarrow> Inl e
      | Inr (v, _) \<Rightarrow> Inr v)"

definition Int128_MarshalJSON :: "Int128 \<Rightarrow> string" where
  "Int128_MarshalJSON i = [CHR 0x22] @ Int128_String i @ [CHR 0x22]"

definition Int128_UnmarshalJSON :: "string \<Rightarrow> failure + Int128" where
  "Int128_UnmarshalJSON bts =
     (if bts = [] then Inl (Panic IndexOutOfRange)
      else if bts ! 0 = CHR 0x22 then
        (let ln = length bts
         in if bts ! (ln - 1) \<noteq> CHR 0x22 then Inl (Error InvalidJSON)
            else if ln - 1 < 1 then Inl (Panic SliceBoundsOutOfRange)
            else
              (case Int128FromString (drop 1 (take (ln - 1) bts)) of
                 Inl e \<Rightarrow> Inl (Error e)
               | Inr (v, _) \<Rightarrow> Inr v))
      else
        (case Int128FromString bts of
           Inl e \<Rightarrow> Inl (Error e)
         | Inr (v, _) \<Rightarrow> Inr v))"

section \<open>Wrap-around of addition\<close>

lemma uint64_lt: "uint (x :: uint64) < 18446744073709551616"
  using unsigned_less [of x, where 'a=int] by simp

lemma uint64_cases:
  obtains n :: int where "n = uint (x :: uint64)" "0 \<le> n" "n < 2 ^ 64"
  using uint64_lt [of x] by simp

lemma val_mod:
  fixes B :: int
  assumes "0 \<le> l" "l < B"
  shows "(h * B + l) mod (B * B) = (h mod B) * B + l"
proof -
  have B: "0 < B" using assms by simp
  have "(h * B + l) mod (B * B) = B * ((h * B + l) div B mod B) + (h * B + l) mod B"
    using B by (simp add: zmod_zmult2_eq)
  with assms show ?thesis by (simp add: mult.commute)
qed

lemma u128_val_ge0: "0 \<le> u128_val u"
  by (simp add: u128_val_def)

lemma u128_val_lt: "u128_val u < 2 ^ 128"
proof -
  have "uint (hi u) \<le> 2 ^ 64 - 1" "uint (lo u) < 2 ^ 64"
    using uint64_lt [of "hi u"] uint64_lt [of "lo u"] by simp_all
  then have "uint (hi u) * 2 ^ 64 + uint (lo u) < (2 ^ 64 - 1) * 2 ^ 64 + 2 ^ 64"
    by (intro add_le_less_mono mult_right_mono) simp_all
  then show ?thesis by (simp add: u128_val_def)
qed

lemma u128_val_hi: "u128_val u div 2 ^ 64 = uint (hi u)"
  using uint64_lt [of "lo u"] by (simp add: u128_val_def)

lemma u128_val_lo: "u128_val u mod 2 ^ 64 = uint (lo u)"
  using uint64_lt [of "lo u"] by (simp add: u128_val_def)

lemma u128_val_inj: "u128_val a = u128_val b \<Longrightarrow> a = b"
  by (metis u128_val_hi u128_val_lo Uint128.expand word_uint_eq_iff)

lemma u128_val_mk:
  fixes h l :: int
  assumes "0 \<le> l" "l < 2 ^ 64"
  shows "u128_val (Uint128 (word_of_int h) (word_of_int l)) = (h * 2 ^ 64 + l) mod 2 ^ 128"
proof -
  have "uint (word_of_int l :: uint64) = l"
    using assms by (simp add: uint_word_of_int)
  moreover have "uint (word_of_int h :: uint64) = h mod 2 ^ 64"
    by (simp add: uint_word_of_int)
  ultimately show ?thesis
    using val_mod [of l "2 ^ 64" h] assms by (simp add: u128_val_def)
qed

lemma u128_val_Add: "u128_val (Uint128_Add a b) = (u128_val a + u128_val b) mod 2 ^ 128"
proof -
  obtain la where la: "la = uint (lo a)" "0 \<le> la" "la < 2 ^ 64" by (rule uint64_cases)
  obtain lb where lb: "lb = uint (lo b)" "0 \<le> lb" "lb < 2 ^ 64" by (rule uint64_cases)
  define c :: int where "c = (if 2 ^ 64 \<le> la + lb then 1 else 0)"
  define l where "l = la + lb - c * 2 ^ 64"
  have l: "0 \<le> l" "l < 2 ^ 64"
    using la(2,3) lb(2,3) by (auto simp: l_def c_def)
  have "Uint128_Add a b = Uint128 (word_of_int (uint (hi a) + uint (hi b) + c)) (word_of_int l)"
    by (simp add: Uint128_Add_def bits_Add64_def c_def l_def la lb)
  then show ?thesis
    using u128_val_mk [OF l, of "uint (hi a) + uint (hi b) + c"]
    by (simp add: u128_val_def l_def algebra_simps la lb)
qed

lemma u128_val_Sub: "u128_val (Uint128_Sub a b) = (u128_val a - u128_val b) mod 2 ^ 128"
proof -
  obtain la where la: "la = uint (lo a)" "0 \<le> la" "la < 2 ^ 64" by (rule uint64_cases)
  obtain lb where lb: "lb = uint (lo b)" "0 \<le> lb" "lb < 2 ^ 64" by (rule uint64_cases)
  define c :: int where "c = (if la < lb then 1 else 0)"
  define l where "l = la - lb + c * 2 ^ 64"
  have l: "0 \<le> l" "l < 2 ^ 64"
    using la(2,3) lb(2,3) by (auto simp: l_def c_def)
  have "Uint128_Sub a b = Uint128 (word_of_int (uint (hi a) - uint (hi b) - c)) (word_of_int l)"
    by (simp add: Uint128_Sub_def bits_Sub64_def c_def l_def la lb)
  then show ?thesis
    using u128_val_mk [OF l, of "uint (hi a) - uint (hi b) - c"]
    by (simp add: u128_val_def l_def algebra_simps la lb)
qed

lemma Uint128_Add_Max_One: "Uint128_Add (Uint128_Add a MaxUint128) (Uint128From64 1) = a"
proof (rule u128_val_inj)
  have m: "u128_val MaxUint128 = 2 ^ 128 - 1"
    by (simp add: u128_val_def MaxUint128_def maxUint64_def)
  have o: "u128_val (Uint128From64 1) = 1"
    by (simp add: u128_val_def Uint128From64_def)
  have "u128_val (Uint128_Add (Uint128_Add a MaxUint128) (Uint128From64 1))
        = (u128_val a + 2 ^ 128) mod 2 ^ 128"
    by (simp add: u128_val_Add m o mod_simps)
  also have "\<dots> = u128_val a"
    using u128_val_ge0 [of a] u128_val_lt [of a] by simp
  finally show "u128_val (Uint128_Add (Uint128_Add a MaxUint128) (Uint128From64 1)) = u128_val a" .
qed

section \<open>The 64-bit-operand variants\<close>

lemma Int128_Add64_eq: "Int128_Add64 i n = Int128_Add i (Int128FromInt64 n)"
  by (simp add: Int128_Add64_def Int128_Add_def Int128FromInt64_def Add64_def bits_Add64_def
      Let_def split: prod.splits)

lemma Int128_Sub64_eq: "Int128_Sub64 i n = Int128_Sub i (Int128FromInt64 n)"
  by (simp add: Int128_Sub64_def Int128_Sub_def Int128FromInt64_def Sub64_def bits_Sub64_def
      Let_def split: prod.splits)

lemma Int128_Cmp64_eq: "Int128_Cmp64 i n = Int128_Cmp i (Int128FromInt64 n)"
  by (simp add: Int128_Cmp64_def Int128_Cmp_def Int128FromInt64_def Let_def)

lemma Uint128_Add64_eq: "Uint128_Add64 u m = Uint128_Add u (Uint128From64 m)"
  by (simp add: Uint128_Add64_def Uint128_Add_def Uint128From64_def bits_Add64_def
      Let_def split: prod.splits)

lemma Uint128_Sub64_eq: "Uint128_Sub64 u m = Uint128_Sub u (Uint128From64 m)"
  by (simp add: Uint128_Sub64_def Uint128_Sub_def Uint128From64_def bits_Sub64_def
      Let_def split: prod.splits)

lemma Uint128_Cmp64_eq: "Uint128_Cmp64 u m = Uint128_Cmp u (Uint128From64 m)"
  by (auto simp add: Uint128_Cmp64_def Uint128_Cmp_def Uint128From64_def word_gt_0)

text \<open>
  C10: the 64-bit-operand variants agree with first promoting the operand to 128 bits.
  For every \<open>Int128\<close> \<open>i\<close> and \<open>int64\<close> \<open>n\<close>, \<open>Add64\<close>, \<open>Sub64\<close> and
  \<open>Cmp64\<close> give what \<open>Add\<close>, \<open>Sub\<close> and \<open>Cmp\<close> give on \<open>Int128FromInt64(n)\<close>;
  for every \<open>Uint128\<close> \<open>u\<close> and \<open>uint64\<close> \<open>m\<close>, likewise on \<open>Uint128From64(m)\<close>.
\<close>

theorem C10_fast_paths:
  "Int128_Add64 i n = Int128_Add i (Int128FromInt64 n)
   \<and> Int128_Sub64 i n = Int128_Sub i (Int128FromInt64 n)
   \<and> Int128_Cmp64 i n = Int128_Cmp i (Int128FromInt64 n)
   \<and> Uint128_Add64 u m = Uint128_Add u (Uint128From64 m)
   \<and> Uint128_Sub64 u m = Uint128_Sub u (Uint128From64 m)
   \<and> Uint128_Cmp64 u m = Uint128_Cmp u (Uint128From64 m)"
  by (simp only: Int128_Add64_eq Int128_Sub64_eq Int128_Cmp64_eq Uint128_Add64_eq
      Uint128_Sub64_eq Uint128_Cmp64_eq simp_thms)

section \<open>Negation\<close>

lemma Int128_Neg_eq:
  "Int128_Neg i = Int128 (- ihi i - (if ilo i = 0 then 0 else 1)) (- ilo i)"
proof (cases i)
  case (Int128 h l)
  have n1: "NOT (l - 1) = - l" by (simp add: not_eq_complement)
  have n2: "NOT l + 1 = - l" by (simp add: not_eq_complement)
  have n3: "NOT h = - h - 1" by (simp add: not_eq_complement)
  show ?thesis
    using Int128 by (auto simp: Int128_Neg_def MinInt128_def Let_def n1 n2 n3)
qed

lemma Int128_Neg_Neg: "Int128_Neg (Int128_Neg a) = a"
  by (cases a) (simp add: Int128_Neg_eq)


lemma i128_bits_range: "0 \<le> i128_bits i" "i128_bits i < 2 ^ 128"
  using u128_val_ge0 [of "Int128_AsUint128 i"] u128_val_lt [of "Int128_AsUint128 i"]
  by (simp_all add: i128_bits_def u128_val_def Int128_AsUint128_def)

lemma i128_bits_inj: "i128_bits a = i128_bits b \<Longrightarrow> a = b"
  using u128_val_inj [of "Int128_AsUint128 a" "Int128_AsUint128 b"]
  by (cases a, cases b) (simp add: i128_bits_def u128_val_def Int128_AsUint128_def)

lemma i128_val_bits:
  "i128_val i = (if i128_bits i < 2 ^ 127 then i128_bits i else i128_bits i - 2 ^ 128)"
  by (simp add: i128_val_def i128_bits_def Let_def)

lemma i128_bits_mk:
  fixes h l :: int
  assumes "0 \<le> l" "l < 2 ^ 64"
  shows "i128_bits (Int128 (word_of_int h) (word_of_int l)) = (h * 2 ^ 64 + l) mod 2 ^ 128"
  using u128_val_mk [OF assms, of h] by (simp add: i128_bits_def u128_val_def)

lemma i128_bits_Neg: "i128_bits (Int128_Neg i) = (- i128_bits i) mod 2 ^ 128"
proof -
  obtain l where l: "l = uint (ilo i)" "0 \<le> l" "l < 2 ^ 64" by (rule uint64_cases)
  define c :: int where "c = (if l = 0 then 0 else 1)"
  define l' where "l' = c * 2 ^ 64 - l"
  have l': "0 \<le> l'" "l' < 2 ^ 64"
    using l(2,3) by (auto simp: l'_def c_def)
  have z: "ilo i = 0 \<longleftrightarrow> l = 0"
    by (simp add: l(1) uint_0_iff)
  have "Int128_Neg i = Int128 (word_of_int (- uint (ihi i) - c)) (word_of_int l')"
    by (simp add: Int128_Neg_eq c_def l'_def z) (simp add: l(1))
  then show ?thesis
    using i128_bits_mk [OF l', of "- uint (ihi i) - c"]
    by (simp add: i128_bits_def l'_def algebra_simps l(1))
qed

lemma i128_bits_MinInt128: "i128_bits a = 2 ^ 127 \<longleftrightarrow> a = MinInt128"
proof
  assume "i128_bits a = 2 ^ 127"
  moreover have "i128_bits MinInt128 = 2 ^ 127"
    by (simp add: i128_bits_def MinInt128_def)
  ultimately show "a = MinInt128" by (simp add: i128_bits_inj)
next
  assume "a = MinInt128"
  then show "i128_bits a = 2 ^ 127" by (simp add: i128_bits_def MinInt128_def)
qed

lemma i128_val_Neg: "i128_val (Int128_Neg a) = - i128_val a \<longleftrightarrow> a \<noteq> MinInt128"
proof -
  obtain u where u: "u = i128_bits a" "0 \<le> u" "u < 2 ^ 128"
    using i128_bits_range [of a] by simp
  have n: "i128_bits (Int128_Neg a) = (if u = 0 then 0 else 2 ^ 128 - u)"
  proof (cases "u = 0")
    case True
    then show ?thesis by (simp add: i128_bits_Neg flip: u(1))
  next
    case False
    then have "(- u) mod 2 ^ 128 = 2 ^ 128 - u"
      using u(2,3) by (simp add: zmod_zminus1_eq_if)
    with False show ?thesis by (simp add: i128_bits_Neg flip: u(1))
  qed
  have "i128_val (Int128_Neg a) = - i128_val a \<longleftrightarrow> u \<noteq> 2 ^ 127"
    using u(2,3) unfolding i128_val_bits n u(1) [symmetric]
    by (auto split: if_splits)
  then show ?thesis using i128_bits_MinInt128 [of a] by (simp add: u(1))
qed

text \<open>
  C5: negation is an involution with one overflow fixed point.  \<open>Neg(Neg(a)) == a\<close> for
  every \<open>a\<close> other than \<open>MinInt128\<close>; \<open>Neg(MinInt128) == MinInt128\<close>; and
  \<open>MinInt128\<close> is the sole value whose negation overflows: for every other \<open>a\<close> the
  number \<open>Neg(a)\<close> stands for is minus the number \<open>a\<close> stands for.
\<close>

theorem C5_neg_involution:
  "(a \<noteq> MinInt128 \<longrightarrow> Int128_Neg (Int128_Neg a) = a)
   \<and> Int128_Neg MinInt128 = MinInt128
   \<and> (i128_val (Int128_Neg a) = - i128_val a \<longleftrightarrow> a \<noteq> MinInt128)"
  by (simp add: Int128_Neg_Neg i128_val_Neg) (simp add: Int128_Neg_def MinInt128_def)

theorem C5_neg_involution_witness:
  "Int128 0 5 \<noteq> MinInt128 \<and> Int128_Neg (Int128_Neg (Int128 0 5)) = Int128 0 5
   \<and> Int128_Neg MinInt128 = MinInt128
   \<and> i128_val (Int128_Neg (Int128 0 5)) = - i128_val (Int128 0 5)"
  using C5_neg_involution [of "Int128 0 5"] by (simp add: MinInt128_def)

section \<open>Bits of a \<open>Uint128\<close> and rotation\<close>

lemma u128_val_concat: "u128_val u = concat_bit 64 (uint (lo u)) (uint (hi u))"
proof -
  have "take_bit 64 (uint (lo u)) = uint (lo u)"
    using uint64_lt [of "lo u"] by (simp add: take_bit_int_eq_self)
  then show ?thesis
    by (simp add: u128_val_def concat_bit_eq push_bit_eq_mult)
qed

lemma bit_u128_val:
  "bit (u128_val u) i \<longleftrightarrow> (if i < 64 then bit (lo u) i else bit (hi u) (i - 64))"
  by (auto simp add: u128_val_concat bit_concat_bit_iff bit_uint_iff dest: bit_imp_le_length)

lemma bit_u128_val_ge: "128 \<le> i \<Longrightarrow> \<not> bit (u128_val u) i"
  by (auto simp add: bit_u128_val dest: bit_imp_le_length)

lemma u128_eqI:
  assumes "\<And>i. i < 128 \<Longrightarrow> bit (u128_val a) i = bit (u128_val b) i"
  shows "a = b"
proof (rule u128_val_inj, rule bit_eqI)
  fix i
  show "bit (u128_val a) i = bit (u128_val b) i"
    using assms [of i] bit_u128_val_ge [of i a] bit_u128_val_ge [of i b]
    by (cases "i < 128") simp_all
qed

lemma rot_index: "i < 128 \<Longrightarrow> s < 128 \<Longrightarrow> (i + 128 - s) mod 128 = (if s \<le> i then i - s else i + 128 - s)" for i s :: nat
  by (auto simp: mod_if)

lemma bit_RotateLeft:
  assumes "i < 128"
  shows "bit (u128_val (Uint128_RotateLeft x k)) i
         \<longleftrightarrow> bit (u128_val x) ((i + 128 - unat (k AND 127)) mod 128)"
proof -
  define s where "s = unat (k AND 127)"
  have "k AND 127 \<le> 127" by (rule word_and_le1)
  then have s: "s < 128" by (simp add: s_def word_le_nat_alt)
  show ?thesis
    unfolding rot_index [OF assms s] s_def [symmetric] Uint128_RotateLeft_def Let_def
    using assms s
    by (auto simp add: bit_u128_val bit_simps not_less not_le ac_simps dest: bit_imp_le_length)
qed


lemma uint_and_127: "uint (k AND 127) = uint k mod 128" for k :: "64 word"
proof -
  have "k AND 127 = take_bit 7 k"
    by (simp add: take_bit_eq_mask mask_eq_exp_minus_1)
  moreover have "uint (take_bit 7 k) = take_bit 7 (uint k)"
    by (rule unsigned_take_bit_eq)
  moreover have "take_bit 7 (uint k) = uint k mod 2 ^ 7"
    by (rule take_bit_eq_mod)
  ultimately show ?thesis by simp
qed

lemma mod128_mod: "(a mod 2 ^ 64) mod 128 = a mod 128" for a :: int
  by (rule mod_mod_cancel) simp

lemma mod128_diff: "(a - b mod 2 ^ 64) mod 128 = (a - b) mod 128" for a b :: int
  by (rule mod_diff_cong) (simp_all only: mod128_mod)

lemma bit_RotateLeft_int:
  assumes "i < 128"
  shows "bit (u128_val (Uint128_RotateLeft x k)) i
         \<longleftrightarrow> bit (u128_val x) (nat ((int i - uint k) mod 128))"
proof -
  define s where "s = unat (k AND 127)"
  have si: "int s = uint k mod 128"
    by (simp add: s_def uint_and_127)
  have "uint k mod 128 < 128" by simp
  with si have s: "s < 128" by linarith
  have "int ((i + 128 - s) mod 128) = (int i + 128 - int s) mod 128"
    using s by (simp add: zmod_int of_nat_diff)
  also have "\<dots> = (int i - uint k) mod 128"
  proof -
    have "(int i + 128 - uint k mod 128) mod 128 = (int i + 128 - uint k) mod 128"
      by (simp add: mod_simps)
    also have "\<dots> = (int i - uint k + 128) mod 128"
      by (simp add: algebra_simps)
    also have "\<dots> = (int i - uint k) mod 128"
      by (simp only: mod_add_self2)
    finally show ?thesis by (simp only: si)
  qed
  finally have "(i + 128 - s) mod 128 = nat ((int i - uint k) mod 128)"
    by simp
  then show ?thesis
    using bit_RotateLeft [OF assms, of x k] by (simp add: s_def)
qed

lemma RotateLeft_inverse: "Uint128_RotateLeft (Uint128_RotateLeft x k) (- k) = x"
proof (rule u128_eqI)
  fix i :: nat
  assume i: "i < 128"
  define j where "j = nat ((int i - uint (- k)) mod 128)"
  have j: "j < 128" "int j = (int i - uint (- k)) mod 128"
    by (simp_all add: j_def nat_less_iff)
  have "uint (- k) = (- uint k) mod 2 ^ 64"
    by (simp add: uint_word_ariths)
  then have "int j = (int i + uint k) mod 128"
    using mod128_diff [of "int i" "- uint k"] by (simp add: j(2))
  then have "(int j - uint k) mod 128 = int i mod 128"
    by (simp add: mod_simps)
  then have "nat ((int j - uint k) mod 128) = i"
    using i by simp
  then show "bit (u128_val (Uint128_RotateLeft (Uint128_RotateLeft x k) (- k))) i
             = bit (u128_val x) i"
    using bit_RotateLeft_int [OF i, of "Uint128_RotateLeft x k" "- k"]
      bit_RotateLeft_int [OF j(1), of x k]
    by (simp add: j_def)
qed

lemma RotateLeft_128: "Uint128_RotateLeft x 128 = x"
  by (cases x) (simp add: Uint128_RotateLeft_def)

lemma RotateLeft_neg:
  assumes "j < 128" "i < 128"
  shows "bit (u128_val (Uint128_RotateLeft x (- word_of_nat j))) i
         \<longleftrightarrow> bit (u128_val x) ((i + j) mod 128)"
proof -
  have "uint (word_of_nat j :: 64 word) = int j"
    using assms(1) by (simp add: unsigned_of_nat take_bit_nat_eq_self)
  then have "uint (- word_of_nat j :: 64 word) = (- int j) mod 2 ^ 64"
    by (simp add: uint_word_ariths)
  then have "(int i - uint (- word_of_nat j :: 64 word)) mod 128 = (int i + int j) mod 128"
    using mod128_diff [of "int i" "- int j"] by simp
  also have "\<dots> = int ((i + j) mod 128)"
    by (simp add: zmod_int)
  finally show ?thesis
    using bit_RotateLeft_int [OF assms(2), of x "- word_of_nat j"] by simp
qed

section \<open>Unsigned division\<close>

subsection \<open>Integer division facts\<close>

lemma int_le_div: "0 < V \<Longrightarrow> q * V \<le> N \<Longrightarrow> q \<le> N div V" for q V N :: int
  using zdiv_mono1 [of "q * V" N V] by simp

lemma int_div_less: "0 < V \<Longrightarrow> N < q * V \<Longrightarrow> N div V < q" for q V N :: int
proof (rule ccontr)
  assume V: "0 < V" and N: "N < q * V" and "\<not> N div V < q"
  then have "q \<le> N div V" by simp
  then have "q * V \<le> (N div V) * V" using V by (simp add: mult_right_mono)
  also have "\<dots> \<le> N"
    using V by (metis mult.commute pos_mod_sign add_increasing2 mult_div_mod_eq order_refl)
  finally show False using N by simp
qed

lemma int_div_unique:
  "0 < V \<Longrightarrow> q * V \<le> N \<Longrightarrow> N div V \<le> q \<Longrightarrow> N div V = q" for q V N :: int
  using int_le_div [of V q N] by simp

subsection \<open>Words as images of integers\<close>

lemma woi_uint: "0 \<le> a \<Longrightarrow> a < 2 ^ 64 \<Longrightarrow> uint (word_of_int a :: uint64) = a"
  by (simp add: uint_word_of_int)

lemma woi_le:
  "0 \<le> a \<Longrightarrow> a < 2 ^ 64 \<Longrightarrow> 0 \<le> b \<Longrightarrow> b < 2 ^ 64
   \<Longrightarrow> (word_of_int a :: uint64) \<le> word_of_int b \<longleftrightarrow> a \<le> b"
  by (simp add: word_le_def uint_word_of_int)

lemma woi_less:
  "0 \<le> a \<Longrightarrow> a < 2 ^ 64 \<Longrightarrow> 0 \<le> b \<Longrightarrow> b < 2 ^ 64
   \<Longrightarrow> (word_of_int a :: uint64) < word_of_int b \<longleftrightarrow> a < b"
  by (simp add: word_less_def uint_word_of_int)

lemma bit_small_int:
  fixes u :: int
  assumes "0 \<le> u" "u < 2 ^ n" "bit u m"
  shows "m < n"
proof (rule ccontr)
  assume "\<not> m < n"
  then have "n \<le> m" by simp
  have "take_bit n u = u" using assms(1,2) by (simp add: take_bit_int_eq_self)
  then have "bit (take_bit n u) m" using assms(3) by simp
  then show False using \<open>n \<le> m\<close> by (simp add: bit_take_bit_iff)
qed

lemma woi_shift_or:
  assumes "0 \<le> r" "r < 2 ^ 32" "0 \<le> u" "u < 2 ^ 32"
  shows "push_bit 32 (word_of_int r :: uint64) OR word_of_int u = word_of_int (r * 2 ^ 32 + u)"
proof -
  have "push_bit 32 (word_of_int r :: uint64) + word_of_int u
        = push_bit 32 (word_of_int r) OR word_of_int u"
  proof (rule disjunctive_add_eq_or, rule bit_eqI)
    fix n
    show "bit (push_bit 32 (word_of_int r :: uint64) AND word_of_int u) n
          \<longleftrightarrow> bit (0 :: uint64) n"
      using bit_small_int [OF assms(3,4), of n]
      by (auto simp add: bit_simps)
  qed
  then show ?thesis by (simp add: push_bit_eq_mult)
qed


subsection \<open>The digit-correction loop\<close>

lemma again_correct:
  fixes vn1 vn0 un q rhat U V :: int
  assumes V: "V = vn1 * 2 ^ 32 + vn0"
    and vn0: "0 \<le> vn0" "vn0 < 2 ^ 32"
    and vn1: "2 ^ 31 \<le> vn1" "vn1 < 2 ^ 32"
    and un: "0 \<le> un" "un < 2 ^ 32"
    and U: "U = q * vn1 + rhat" "0 \<le> U" "U < V"
    and rhat: "0 \<le> rhat" "rhat < 2 ^ 32"
    and q: "(U * 2 ^ 32 + un) div V \<le> q" "q \<le> 2 ^ 32 + 1"
  shows "\<exists>rh. again (word_of_int (2 ^ 32)) (word_of_int vn1) (word_of_int vn0) (word_of_int un)
           (word_of_int q) (word_of_int rhat) (word_of_int (q * vn0))
           (word_of_int (rhat * 2 ^ 32 + un))
         = Some (Inr (word_of_int ((U * 2 ^ 32 + un) div V), rh))"
  using U rhat q
proof (induction "nat (2 ^ 32 - rhat)" arbitrary: q rhat rule: less_induct)
  case less
  define N where "N = U * 2 ^ 32 + un"
  define Q where "Q = N div V"
  have Vpos: "0 < V" using V vn0 vn1 by simp
  have N0: "0 \<le> N" using less.prems(2) un by (simp add: N_def)
  have Q0: "0 \<le> Q" using N0 Vpos by (simp add: Q_def pos_imp_zdiv_nonneg_iff)
  have Qq: "Q \<le> q" using less.prems(6) by (simp add: Q_def N_def)
  have q0: "0 \<le> q" using Q0 Qq by simp
  have qV: "q * V = N + q * vn0 - (rhat * 2 ^ 32 + un)"
    by (simp add: V less.prems(1) N_def algebra_simps)
  have left: "0 \<le> q * vn0" "q * vn0 < 2 ^ 64"
  proof -
    show "0 \<le> q * vn0" using q0 vn0 by simp
    have "q * vn0 \<le> (2 ^ 32 + 1) * (2 ^ 32 - 1)"
      using less.prems(7) vn0 q0 by (intro mult_mono) simp_all
    then show "q * vn0 < 2 ^ 64" by simp
  qed
  have right: "0 \<le> rhat * 2 ^ 32 + un" "rhat * 2 ^ 32 + un < 2 ^ 64"
    using less.prems(4,5) un by simp_all
  have b: "(0::int) \<le> 2 ^ 32" "(2::int) ^ 32 < 2 ^ 64" by simp_all
  have qr: "q < 2 ^ 64" using less.prems(7) by simp
  have rr: "rhat < 2 ^ 64" using less.prems(5) by simp
  have t1: "(word_of_int (2 ^ 32) :: uint64) \<le> word_of_int q \<longleftrightarrow> 2 ^ 32 \<le> q"
    using woi_le [OF b q0 qr] .
  have t2: "(word_of_int (rhat * 2 ^ 32 + un) :: uint64) < word_of_int (q * vn0)
            \<longleftrightarrow> rhat * 2 ^ 32 + un < q * vn0"
    using woi_less [OF right left] .
  show ?case
  proof (cases "2 ^ 32 \<le> q \<or> rhat * 2 ^ 32 + un < q * vn0")
    case True
    have "N < q * V"
    proof (cases "2 ^ 32 \<le> q")
      case True
      have "N < (U + 1) * 2 ^ 32" using un by (simp add: N_def algebra_simps)
      also have "\<dots> \<le> V * 2 ^ 32" using less.prems(3) by simp
      also have "\<dots> \<le> V * q" using True Vpos by (intro mult_left_mono) simp_all
      finally show ?thesis by (simp add: mult.commute)
    next
      case False
      with True have "rhat * 2 ^ 32 + un < q * vn0" by simp
      then show ?thesis using qV by simp
    qed
    then have "Q < q" using Vpos by (simp add: Q_def int_div_less)
    then have q1: "Q \<le> q - 1" "0 \<le> q - 1" "q - 1 \<le> 2 ^ 32 + 1"
      using Q0 less.prems(7) by simp_all
    have U': "U = (q - 1) * vn1 + (rhat + vn1)"
      by (simp add: less.prems(1) algebra_simps)
    have s1: "(word_of_int rhat + word_of_int vn1 :: uint64) = word_of_int (rhat + vn1)"
      by simp
    have s2: "(word_of_int q - 1 :: uint64) = word_of_int (q - 1)"
      by simp
    have s3: "(word_of_int (q * vn0) - word_of_int vn0 :: uint64) = word_of_int ((q - 1) * vn0)"
      by (simp add: algebra_simps)
    have rv: "0 \<le> rhat + vn1" "rhat + vn1 < 2 ^ 64"
      using less.prems(4,5) vn1 by simp_all
    have t3: "(word_of_int (rhat + vn1) :: uint64) < word_of_int (2 ^ 32)
              \<longleftrightarrow> rhat + vn1 < 2 ^ 32"
      using woi_less [OF rv b] .
    show ?thesis
    proof (cases "rhat + vn1 < 2 ^ 32")
      case rlt: True
      have m: "nat (2 ^ 32 - (rhat + vn1)) < nat (2 ^ 32 - rhat)"
        using vn1 less.prems(4,5) by simp
      have s4: "push_bit 32 (word_of_int (rhat + vn1) :: uint64) OR word_of_int un
                = word_of_int ((rhat + vn1) * 2 ^ 32 + un)"
        using woi_shift_or [OF rv(1) rlt un] .
      from less.hyps [OF m U' less.prems(2,3) rv(1) rlt _ q1(3)] q1(1)
      obtain rh where
        "again (word_of_int (2 ^ 32)) (word_of_int vn1) (word_of_int vn0) (word_of_int un)
           (word_of_int (q - 1)) (word_of_int (rhat + vn1)) (word_of_int ((q - 1) * vn0))
           (word_of_int ((rhat + vn1) * 2 ^ 32 + un))
         = Some (Inr (word_of_int ((U * 2 ^ 32 + un) div V), rh))"
        by (auto simp: Q_def N_def)
      then show ?thesis
        using True rlt
        by (subst again.simps) (simp only: t1 t2 s1 s2 s3 s4 t3 if_True simp_thms, blast)
    next
      case rge: False
      have "(q - 1) * vn0 \<le> 2 ^ 32 * (2 ^ 32 - 1)"
        using less.prems(7) vn0 q1(2) by (intro mult_mono) simp_all
      also have "\<dots> \<le> (rhat + vn1) * 2 ^ 32" using rge by simp
      finally have "(q - 1) * vn0 \<le> (rhat + vn1) * 2 ^ 32 + un" using un by simp
      moreover have "(q - 1) * V = N + (q - 1) * vn0 - ((rhat + vn1) * 2 ^ 32 + un)"
        by (simp add: V less.prems(1) N_def algebra_simps)
      ultimately have "(q - 1) * V \<le> N" by simp
      then have "(U * 2 ^ 32 + un) div V = q - 1"
        using int_div_unique [OF Vpos, of "q - 1" N] q1(1) by (simp add: Q_def N_def)
      then show ?thesis
        using True rge
        by (subst again.simps) (simp only: t1 t2 s1 s2 t3 if_True if_False simp_thms, blast)
    qed
  next
    case False
    then have "q * vn0 \<le> rhat * 2 ^ 32 + un" by simp
    then have "q * V \<le> N" using qV by simp
    then have "(U * 2 ^ 32 + un) div V = q"
      using int_div_unique [OF Vpos, of q N] Qq by (simp add: Q_def N_def)
    then show ?thesis
      using False
      by (subst again.simps) (simp only: t1 t2 if_True if_False simp_thms, blast)
  qed
qed

lemma woi_div:
  assumes "0 \<le> a" "a < 2 ^ 64" "0 \<le> b" "b < 2 ^ 64"
  shows "(word_of_int a :: uint64) div word_of_int b = word_of_int (a div b)"
proof -
  have "uint ((word_of_int a :: uint64) div word_of_int b) = a div b"
    using assms by (simp add: uint_div woi_uint)
  then show ?thesis by (metis word_of_int_uint)
qed

lemma woi_mod:
  assumes "0 \<le> a" "a < 2 ^ 64" "0 \<le> b" "b < 2 ^ 64"
  shows "(word_of_int a :: uint64) mod word_of_int b = word_of_int (a mod b)"
proof -
  have "uint ((word_of_int a :: uint64) mod word_of_int b) = a mod b"
    using assms by (simp add: uint_mod woi_uint)
  then show ?thesis by (metis word_of_int_uint)
qed

lemma woi_drop_bit:
  assumes "0 \<le> a" "a < 2 ^ 64"
  shows "drop_bit n (word_of_int a :: uint64) = word_of_int (a div 2 ^ n)"
proof -
  have "drop_bit n (word_of_int a :: uint64) = word_of_int (drop_bit n a)"
    using bit_small_int [OF assms]
    by (intro bit_word_eqI) (auto simp add: bit_simps)
  then show ?thesis by (simp only: drop_bit_eq_div)
qed

lemma woi_and_mask32:
  "(word_of_int a :: uint64) AND 0xffffffff = word_of_int (a mod 2 ^ 32)"
proof -
  have "(0xffffffff :: uint64) = mask 32" by (simp add: mask_eq_exp_minus_1)
  then have "(word_of_int a :: uint64) AND 0xffffffff = take_bit 32 (word_of_int a)"
    by (simp only: take_bit_eq_mask)
  also have "\<dots> = word_of_int (take_bit 32 a)"
    by (rule bit_word_eqI) (auto simp add: bit_simps)
  finally show ?thesis by (simp add: take_bit_eq_mod)
qed

lemma woi_eq_0: "0 \<le> a \<Longrightarrow> a < 2 ^ 64 \<Longrightarrow> (word_of_int a :: uint64) = 0 \<longleftrightarrow> a = 0"
  by (metis woi_uint uint_0_eq word_of_int_0)

lemma digit_correct:
  fixes V U d :: int
  assumes V: "2 ^ 63 \<le> V" "V < 2 ^ 64" and U: "0 \<le> U" "U < V" and d: "0 \<le> d" "d < 2 ^ 32"
  shows "\<exists>rh. again (word_of_int (2 ^ 32)) (word_of_int (V div 2 ^ 32)) (word_of_int (V mod 2 ^ 32))
           (word_of_int d) (word_of_int (U div (V div 2 ^ 32))) (word_of_int (U mod (V div 2 ^ 32)))
           (word_of_int (U div (V div 2 ^ 32) * (V mod 2 ^ 32)))
           (word_of_int (U mod (V div 2 ^ 32) * 2 ^ 32 + d))
         = Some (Inr (word_of_int ((U * 2 ^ 32 + d) div V), rh))"
proof -
  define vn1 where "vn1 = V div 2 ^ 32"
  define vn0 where "vn0 = V mod 2 ^ 32"
  have Veq: "V = vn1 * 2 ^ 32 + vn0" by (simp add: vn1_def vn0_def)
  have vn0: "0 \<le> vn0" "vn0 < 2 ^ 32" by (simp_all add: vn0_def)
  have vn1: "2 ^ 31 \<le> vn1" "vn1 < 2 ^ 32"
    using V by (simp_all add: vn1_def)
  have vpos: "0 < vn1" using vn1 by simp
  define N where "N = U * 2 ^ 32 + d"
  have N0: "0 \<le> N" using U d by (simp add: N_def)
  have Vpos: "0 < V" using V by simp
  have Q0: "0 \<le> N div V" using N0 Vpos by (simp add: pos_imp_zdiv_nonneg_iff)
  have Ueq: "U = U div vn1 * vn1 + U mod vn1" by simp
  have "U mod vn1 < vn1" using vpos by (rule pos_mod_bound)
  then have "U mod vn1 < 2 ^ 32" using vn1(2) by (rule order.strict_trans)
  moreover have "0 \<le> U mod vn1" using vpos by simp
  ultimately have r: "0 \<le> U mod vn1" "U mod vn1 < 2 ^ 32" by blast+
  have "N div V * V \<le> N"
    using Vpos by (metis mult.commute pos_mod_sign add_increasing2 mult_div_mod_eq order_refl)
  moreover have "N < (U + 1) * 2 ^ 32" using d by (simp add: N_def algebra_simps)
  moreover have "N div V * (vn1 * 2 ^ 32) \<le> N div V * V"
    using Q0 vn0 by (intro mult_left_mono) (simp_all add: Veq)
  ultimately have "(N div V * vn1) * 2 ^ 32 < (U + 1) * 2 ^ 32" by (simp add: algebra_simps)
  then have "N div V * vn1 \<le> U" by simp
  then have q1: "N div V \<le> U div vn1" using vpos by (rule int_le_div [rotated])
  have "U < vn1 * 2 ^ 32 + 2 ^ 32" using U(2) vn0(2) by (simp add: Veq)
  also have "\<dots> \<le> (2 ^ 32 + 2) * vn1" using vn1(1) by (simp add: algebra_simps)
  finally have "U div vn1 < 2 ^ 32 + 2" using vpos by (rule int_div_less [rotated])
  then have q2: "U div vn1 \<le> 2 ^ 32 + 1" by simp
  show ?thesis
    using again_correct [OF Veq vn0 vn1 d Ueq U r _ q2] q1
    by (simp only: N_def vn1_def vn0_def)
qed

lemma bind_r_ret [simp]: "bind_r (Some (Inr x)) f = f x"
  by (simp add: bind_r_def)

lemma bind_r_throw [simp]: "bind_r (Some (Inl p)) f = Some (Inl p)"
  by (simp add: bind_r_def)

lemma woi_shift_or_gen:
  fixes a c :: int
  assumes "0 \<le> c" "c < 2 ^ s"
  shows "push_bit s (word_of_int a :: uint64) OR word_of_int c = word_of_int (a * 2 ^ s + c)"
proof -
  have "push_bit s (word_of_int a :: uint64) + word_of_int c
        = push_bit s (word_of_int a) OR word_of_int c"
  proof (rule disjunctive_add_eq_or, rule bit_eqI)
    fix n
    show "bit (push_bit s (word_of_int a :: uint64) AND word_of_int c) n
          \<longleftrightarrow> bit (0 :: uint64) n"
      using bit_small_int [OF assms, of n]
      by (auto simp add: bit_simps)
  qed
  then show ?thesis by (simp add: push_bit_eq_mult)
qed

lemma int_mod_lt: "0 < V \<Longrightarrow> V \<le> B \<Longrightarrow> x mod V < B" for x V B :: int
  using pos_mod_bound [of V x] by (rule order.strict_trans2)

lemma woi_mod_64: "(word_of_int (a mod 2 ^ 64) :: uint64) = word_of_int a"
  by (simp add: word_of_int_eq_iff take_bit_eq_mod)

text \<open>Normalising the dividend: shifting \<open>(u1, u0)\<close> left by \<open>s\<close> bits.\<close>

lemma normalise_arith:
  fixes a1 a0 d :: int
  assumes s: "s < 64" and a0: "0 \<le> a0" "a0 < 2 ^ 64" and a1: "0 \<le> a1" "a1 < d"
  defines "Un32 \<equiv> a1 * 2 ^ s + a0 div 2 ^ (64 - s)"
    and "Un10 \<equiv> (a0 * 2 ^ s) mod 2 ^ 64"
  shows "(a1 * 2 ^ 64 + a0) * 2 ^ s = Un32 * 2 ^ 64 + Un10"
    and "0 \<le> Un32" and "Un32 < d * 2 ^ s" and "0 \<le> Un10" and "Un10 < 2 ^ 64"
    and "0 \<le> a0 div 2 ^ (64 - s)" and "a0 div 2 ^ (64 - s) < 2 ^ s"
proof -
  have p: "(2::int) ^ 64 = 2 ^ (64 - s) * 2 ^ s"
    using s by (simp flip: power_add)
  have "(a0 * 2 ^ s) div 2 ^ 64 = a0 div 2 ^ (64 - s)"
    by (simp only: p) simp
  then have e: "a0 * 2 ^ s = a0 div 2 ^ (64 - s) * 2 ^ 64 + Un10"
    unfolding Un10_def by (metis div_mult_mod_eq)
  show "(a1 * 2 ^ 64 + a0) * 2 ^ s = Un32 * 2 ^ 64 + Un10"
    using e by (simp add: Un32_def algebra_simps)
  show c0: "0 \<le> a0 div 2 ^ (64 - s)"
    using a0 by (simp add: pos_imp_zdiv_nonneg_iff)
  have "a0 < 2 ^ s * 2 ^ (64 - s)" using a0 p by (simp add: mult.commute)
  then show c1: "a0 div 2 ^ (64 - s) < 2 ^ s"
    by (intro int_div_less) simp_all
  show "0 \<le> Un32" using a1 c0 by (simp add: Un32_def)
  have "Un32 < (a1 + 1) * 2 ^ s" using c1 by (simp add: Un32_def algebra_simps)
  also have "\<dots> \<le> d * 2 ^ s" using a1 by (intro mult_right_mono) simp_all
  finally show "Un32 < d * 2 ^ s" .
  show "0 \<le> Un10" "Un10 < 2 ^ 64" by (simp_all add: Un10_def)
qed

text \<open>Two digits of the quotient, and the remainder.\<close>

lemma two_digits_arith:
  fixes V Un32 Un10 :: int
  assumes V: "0 < V" and U: "0 \<le> Un32" "Un32 < V" and L: "0 \<le> Un10" "Un10 < 2 ^ 64"
  defines "N1 \<equiv> Un32 * 2 ^ 32 + Un10 div 2 ^ 32"
  defines "N0 \<equiv> (N1 mod V) * 2 ^ 32 + Un10 mod 2 ^ 32"
  shows "(Un32 * 2 ^ 64 + Un10) div V = (N1 div V) * 2 ^ 32 + N0 div V"
    and "(Un32 * 2 ^ 64 + Un10) mod V = N0 mod V"
    and "0 \<le> N1 div V" and "N1 div V < 2 ^ 32" and "0 \<le> N0 div V" and "N0 div V < 2 ^ 32"
    and "0 \<le> Un10 div 2 ^ 32" and "Un10 div 2 ^ 32 < 2 ^ 32"
proof -
  have u1: "0 \<le> Un10 div 2 ^ 32" "Un10 div 2 ^ 32 < 2 ^ 32"
    using L by (simp_all add: pos_imp_zdiv_nonneg_iff int_div_less)
  then show "0 \<le> Un10 div 2 ^ 32" "Un10 div 2 ^ 32 < 2 ^ 32" by blast+
  have u0: "0 \<le> Un10 mod 2 ^ 32" "Un10 mod 2 ^ 32 < 2 ^ 32" by simp_all
  have N1: "0 \<le> N1" using U u1 by (simp add: N1_def)
  have "N1 < (Un32 + 1) * 2 ^ 32" using u1 by (simp add: N1_def algebra_simps)
  also have "\<dots> \<le> V * 2 ^ 32" using U by (intro mult_right_mono) simp_all
  finally have "N1 < 2 ^ 32 * V" by (simp add: mult.commute)
  then show "N1 div V < 2 ^ 32" using V by (intro int_div_less)
  show "0 \<le> N1 div V" using N1 V by (simp add: pos_imp_zdiv_nonneg_iff)
  have R1: "0 \<le> N1 mod V" "N1 mod V < V" using V by simp_all
  have N0: "0 \<le> N0" using R1 u0 by (simp add: N0_def)
  have "N0 < (N1 mod V + 1) * 2 ^ 32" using u0 by (simp add: N0_def algebra_simps)
  also have "\<dots> \<le> V * 2 ^ 32" using R1 by (intro mult_right_mono) simp_all
  finally have "N0 < 2 ^ 32 * V" by (simp add: mult.commute)
  then show "N0 div V < 2 ^ 32" using V by (intro int_div_less)
  show "0 \<le> N0 div V" using N0 V by (simp add: pos_imp_zdiv_nonneg_iff)
  define Q1 R1 Q0 R0 where "Q1 = N1 div V" and "R1 = N1 mod V"
    and "Q0 = N0 div V" and "R0 = N0 mod V"
  have d1: "N1 = V * Q1 + R1" by (simp add: Q1_def R1_def)
  have d0: "N0 = V * Q0 + R0" by (simp add: Q0_def R0_def)
  have n0: "N0 = R1 * 2 ^ 32 + Un10 mod 2 ^ 32" by (simp add: N0_def R1_def)
  have "Un10 = Un10 div 2 ^ 32 * 2 ^ 32 + Un10 mod 2 ^ 32" by simp
  then have "Un32 * 2 ^ 64 + Un10 = N1 * 2 ^ 32 + Un10 mod 2 ^ 32"
    by (simp add: N1_def algebra_simps)
  also have "\<dots> = V * (Q1 * 2 ^ 32) + N0"
    by (simp add: n0) (simp add: d1 algebra_simps)
  also have "\<dots> = V * (Q1 * 2 ^ 32 + Q0) + R0"
    by (simp add: d0 algebra_simps)
  finally have e: "Un32 * 2 ^ 64 + Un10 = V * (N1 div V * 2 ^ 32 + N0 div V) + N0 mod V"
    by (simp only: Q1_def Q0_def R0_def)
  have r: "0 \<le> N0 mod V" "N0 mod V < V" using V by simp_all
  show "(Un32 * 2 ^ 64 + Un10) div V = (N1 div V) * 2 ^ 32 + N0 div V"
    using e r by (rule int_div_pos_eq)
  show "(Un32 * 2 ^ 64 + Un10) mod V = N0 mod V"
    using e r by (rule int_mod_pos_eq)
qed

subsection \<open>The 128-by-64 division (Hacker's Delight \<open>divlu\<close>)\<close>

lemma woi_b32: "(push_bit 32 1 :: uint64) = word_of_int (2 ^ 32)"
  by simp

lemma divlu_correct:
  fixes u1 u0 v0 :: uint64
  assumes s: "s < 64" and V: "2 ^ 63 \<le> uint v0 * 2 ^ s" "uint v0 * 2 ^ s < 2 ^ 64"
    and u: "u1 < v0"
  shows "quorem128by64 u1 u0 v0 s
         = ret (word_of_int ((uint u1 * 2 ^ 64 + uint u0) div uint v0),
                word_of_int ((uint u1 * 2 ^ 64 + uint u0) mod uint v0))"
    and "quo128by64 u1 u0 v0 s
         = ret (word_of_int ((uint u1 * 2 ^ 64 + uint u0) div uint v0))"
proof -
  obtain a1 where a1: "a1 = uint u1" "0 \<le> a1" "a1 < 2 ^ 64" by (rule uint64_cases)
  obtain a0 where a0: "a0 = uint u0" "0 \<le> a0" "a0 < 2 ^ 64" by (rule uint64_cases)
  obtain d where d: "d = uint v0" "0 \<le> d" "d < 2 ^ 64" by (rule uint64_cases)
  have ad: "a1 < d" using u by (simp add: a1(1) d(1) word_less_def)
  define Vi where "Vi = d * 2 ^ s"
  have Vi: "2 ^ 63 \<le> Vi" "Vi < 2 ^ 64" "0 \<le> Vi" "0 < Vi"
    using V by (simp_all add: Vi_def d(1))
  define c where "c = a0 div 2 ^ (64 - s)"
  define Un32 where "Un32 = a1 * 2 ^ s + c"
  define Un10 where "Un10 = (a0 * 2 ^ s) mod 2 ^ 64"
  note na = normalise_arith [OF s a0(2,3) a1(2) ad, folded c_def Un32_def Un10_def Vi_def,
      unfolded c_def [symmetric] Un32_def [symmetric]]
  have Un32r: "0 \<le> Un32" "Un32 < Vi" "Un32 < 2 ^ 64"
    using na(2,3) Vi(2) by (simp_all add: Vi_def Un32_def c_def)
  define vn1 where "vn1 = Vi div 2 ^ 32"
  define vn0 where "vn0 = Vi mod 2 ^ 32"
  have vn1: "2 ^ 31 \<le> vn1" "vn1 < 2 ^ 32" "0 \<le> vn1" "vn1 < 2 ^ 64" "vn1 \<noteq> 0"
    using Vi by (simp_all add: vn1_def)
  define Un1 where "Un1 = Un10 div 2 ^ 32"
  define Un0 where "Un0 = Un10 mod 2 ^ 32"
  define N1 where "N1 = Un32 * 2 ^ 32 + Un1"
  define N0 where "N0 = (N1 mod Vi) * 2 ^ 32 + Un0"
  note td = two_digits_arith [OF Vi(4) Un32r(1,2) na(4,5), folded Un1_def Un0_def,
      folded N1_def, folded N0_def]
  have Un0r: "0 \<le> Un0" "Un0 < 2 ^ 32" by (simp_all add: Un0_def)
  have R1: "0 \<le> N1 mod Vi" "N1 mod Vi < Vi" "N1 mod Vi < 2 ^ 64"
    using Vi int_mod_lt [OF Vi(4), of "2 ^ 64" N1] by simp_all
  text \<open>the words\<close>
  have w_v: "push_bit s v0 = (word_of_int Vi :: uint64)"
    by (simp add: Vi_def d(1) push_bit_eq_mult)
  have w_vn1: "drop_bit 32 (word_of_int Vi :: uint64) = word_of_int vn1"
    using woi_drop_bit [OF Vi(3,2)] by (simp only: vn1_def)
  have w_vn0: "(word_of_int Vi :: uint64) AND 0xffffffff = word_of_int vn0"
    by (simp only: woi_and_mask32 vn0_def)
  have w_vn1z: "(word_of_int vn1 :: uint64) = 0 \<longleftrightarrow> False"
    using woi_eq_0 [OF vn1(3,4)] vn1(5) by simp
  have w_un32: "(if 0 < s then push_bit s u1 OR drop_bit (uint_sub 64 s) u0 else u1)
                = (word_of_int Un32 :: uint64)"
  proof (cases "0 < s")
    case True
    have "uint_sub 64 s = 64 - s" using s by (simp add: uint_sub_def)
    moreover have "drop_bit (64 - s) u0 = (word_of_int c :: uint64)"
      using woi_drop_bit [OF a0(2,3), of "64 - s"] by (simp add: a0(1) c_def)
    moreover have "push_bit s (word_of_int a1 :: uint64) OR word_of_int c = word_of_int Un32"
      using woi_shift_or_gen [OF na(6,7)] by (simp only: Un32_def)
    ultimately show ?thesis using True by (simp add: a1(1))
  next
    case False
    then have "s = 0" by simp
    then have "c = 0" using a0(2,3) by (simp add: c_def)
    then show ?thesis using \<open>s = 0\<close> by (simp add: Un32_def a1(1))
  qed
  have w_un10: "(if 0 < s then push_bit s u0 else u0) = (word_of_int Un10 :: uint64)"
  proof -
    have "push_bit s u0 = (word_of_int (a0 * 2 ^ s) :: uint64)"
      by (simp add: a0(1) push_bit_eq_mult)
    then have "push_bit s u0 = (word_of_int Un10 :: uint64)"
      by (simp only: Un10_def woi_mod_64)
    then show ?thesis by (cases "0 < s") simp_all
  qed
  have w_un1: "drop_bit 32 (word_of_int Un10 :: uint64) = word_of_int Un1"
    using woi_drop_bit [OF na(4,5)] by (simp only: Un1_def)
  have w_un0: "(word_of_int Un10 :: uint64) AND 0xffffffff = word_of_int Un0"
    by (simp only: woi_and_mask32 Un0_def)
  have w_q1: "(word_of_int Un32 :: uint64) div word_of_int vn1 = word_of_int (Un32 div vn1)"
    by (rule woi_div [OF Un32r(1,3) vn1(3,4)])
  have w_r1: "(word_of_int Un32 :: uint64) mod word_of_int vn1 = word_of_int (Un32 mod vn1)"
    by (rule woi_mod [OF Un32r(1,3) vn1(3,4)])
  have w_left1: "(word_of_int (Un32 div vn1) :: uint64) * word_of_int vn0
                 = word_of_int (Un32 div vn1 * vn0)"
    by simp
  have w_right1: "push_bit 32 (word_of_int (Un32 mod vn1) :: uint64) + word_of_int Un1
                  = word_of_int (Un32 mod vn1 * 2 ^ 32 + Un1)"
    by (simp add: push_bit_eq_mult)
  have rr1: "0 \<le> Un32 mod vn1" "Un32 mod vn1 < 2 ^ 32"
  proof -
    have "0 < vn1" using vn1 by simp
    then show "Un32 mod vn1 < 2 ^ 32" using vn1(2) by (intro int_mod_lt) simp_all
    show "0 \<le> Un32 mod vn1" using \<open>0 < vn1\<close> by simp
  qed
  have w_right1': "push_bit 32 (word_of_int (Un32 mod vn1) :: uint64) OR word_of_int Un1
                  = word_of_int (Un32 mod vn1 * 2 ^ 32 + Un1)"
    using woi_shift_or [OF rr1 td(7,8)] by (simp only: Un1_def)
  obtain rh1 where e1:
    "again (word_of_int (2 ^ 32)) (word_of_int vn1) (word_of_int vn0) (word_of_int Un1)
       (word_of_int (Un32 div vn1)) (word_of_int (Un32 mod vn1))
       (word_of_int (Un32 div vn1 * vn0)) (word_of_int (Un32 mod vn1 * 2 ^ 32 + Un1))
     = Some (Inr (word_of_int (N1 div Vi), rh1))"
    using digit_correct [OF Vi(1,2) Un32r(1,2) td(7,8)]
    unfolding vn1_def vn0_def N1_def by blast
  have w_un21: "push_bit 32 (word_of_int Un32 :: uint64)
                  + (word_of_int Un1 - word_of_int (N1 div Vi) * word_of_int Vi)
                = word_of_int (N1 mod Vi)"
  proof -
    have "N1 mod Vi = Un32 * 2 ^ 32 + Un1 - N1 div Vi * Vi"
      by (simp add: N1_def minus_div_mult_eq_mod [symmetric])
    then show ?thesis by (simp add: push_bit_eq_mult)
  qed
  have w_q0: "(word_of_int (N1 mod Vi) :: uint64) div word_of_int vn1
              = word_of_int (N1 mod Vi div vn1)"
    by (rule woi_div [OF R1(1,3) vn1(3,4)])
  have w_r0: "(word_of_int (N1 mod Vi) :: uint64) mod word_of_int vn1
              = word_of_int (N1 mod Vi mod vn1)"
    by (rule woi_mod [OF R1(1,3) vn1(3,4)])
  have w_left0: "(word_of_int (N1 mod Vi div vn1) :: uint64) * word_of_int vn0
                 = word_of_int (N1 mod Vi div vn1 * vn0)"
    by simp
  have rr: "0 \<le> N1 mod Vi mod vn1" "N1 mod Vi mod vn1 < 2 ^ 32"
  proof -
    have "0 < vn1" using vn1 by simp
    then show "N1 mod Vi mod vn1 < 2 ^ 32" using vn1(2) by (intro int_mod_lt) simp_all
    show "0 \<le> N1 mod Vi mod vn1" using \<open>0 < vn1\<close> by simp
  qed
  have w_right0: "push_bit 32 (word_of_int (N1 mod Vi mod vn1) :: uint64) OR word_of_int Un0
                  = word_of_int (N1 mod Vi mod vn1 * 2 ^ 32 + Un0)"
    by (rule woi_shift_or [OF rr Un0r])
  obtain rh0 where e0:
    "again (word_of_int (2 ^ 32)) (word_of_int vn1) (word_of_int vn0) (word_of_int Un0)
       (word_of_int (N1 mod Vi div vn1)) (word_of_int (N1 mod Vi mod vn1))
       (word_of_int (N1 mod Vi div vn1 * vn0)) (word_of_int (N1 mod Vi mod vn1 * 2 ^ 32 + Un0))
     = Some (Inr (word_of_int (N0 div Vi), rh0))"
    using digit_correct [OF Vi(1,2) R1(1,2) Un0r]
    unfolding vn1_def vn0_def N0_def by blast
  have w_q: "push_bit 32 (word_of_int (N1 div Vi) :: uint64) OR word_of_int (N0 div Vi)
             = word_of_int ((uint u1 * 2 ^ 64 + uint u0) div uint v0)"
  proof -
    have "(a1 * 2 ^ 64 + a0) * 2 ^ s div (d * 2 ^ s) = (a1 * 2 ^ 64 + a0) div d"
      by simp
    then have "(a1 * 2 ^ 64 + a0) div d = N1 div Vi * 2 ^ 32 + N0 div Vi"
      using td(1) by (simp only: na(1) Vi_def)
    then show ?thesis
      using woi_shift_or [OF td(3,4,5,6)] by (simp only: a1(1) a0(1) d(1))
  qed
  have w_r: "drop_bit s (push_bit 32 (word_of_int (N1 mod Vi) :: uint64)
                 + (word_of_int Un0 - word_of_int (N0 div Vi) * word_of_int Vi))
             = word_of_int ((uint u1 * 2 ^ 64 + uint u0) mod uint v0)"
  proof -
    have "N0 mod Vi = N1 mod Vi * 2 ^ 32 + Un0 - N0 div Vi * Vi"
      by (simp add: N0_def minus_div_mult_eq_mod [symmetric])
    then have 1: "push_bit 32 (word_of_int (N1 mod Vi) :: uint64)
                 + (word_of_int Un0 - word_of_int (N0 div Vi) * word_of_int Vi)
                = word_of_int (N0 mod Vi)"
      by (simp add: push_bit_eq_mult)
    have r0: "0 \<le> N0 mod Vi" "N0 mod Vi < 2 ^ 64"
      using Vi int_mod_lt [OF Vi(4), of "2 ^ 64" N0] by simp_all
    have "(a1 * 2 ^ 64 + a0) * 2 ^ s mod (d * 2 ^ s) = (a1 * 2 ^ 64 + a0) mod d * 2 ^ s"
      by simp
    then have "N0 mod Vi = (a1 * 2 ^ 64 + a0) mod d * 2 ^ s"
      using td(2) by (simp only: na(1) Vi_def)
    then have "N0 mod Vi div 2 ^ s = (a1 * 2 ^ 64 + a0) mod d" by simp
    then show ?thesis
      using woi_drop_bit [OF r0, of s] by (simp only: 1 a1(1) a0(1) d(1))
  qed
  show "quorem128by64 u1 u0 v0 s
         = ret (word_of_int ((uint u1 * 2 ^ 64 + uint u0) div uint v0),
                word_of_int ((uint u1 * 2 ^ 64 + uint u0) mod uint v0))"
    unfolding quorem128by64_def Let_def
    by (simp only: woi_b32 w_v w_vn1 w_vn0 w_vn1z if_False w_un32 w_un10 w_un1 w_un0
        w_q1 w_r1 w_left1 w_right1 e1 bind_r_ret case_prod_conv
        w_un21 w_q0 w_r0 w_left0 w_right0 e0 w_q w_r)
  show "quo128by64 u1 u0 v0 s
         = ret (word_of_int ((uint u1 * 2 ^ 64 + uint u0) div uint v0))"
    unfolding quo128by64_def Let_def
    by (simp only: woi_b32 w_v w_vn1 w_vn0 w_vn1z if_False w_un32 w_un10 w_un1 w_un0
        w_q1 w_r1 w_left1 w_right1' e1 bind_r_ret case_prod_conv
        w_un21 w_q0 w_r0 w_left0 w_right0 e0 w_q)
qed

subsection \<open>Values of the 128-bit operations\<close>

lemma Uint128_Inc_Add: "Uint128_Inc u = Uint128_Add u (Uint128 0 1)"
  by (simp add: Uint128_Inc_def Uint128_Add_def bits_Add64_def split: prod.splits)

lemma Uint128_Dec_Sub: "Uint128_Dec u = Uint128_Sub u (Uint128 0 1)"
  by (simp add: Uint128_Dec_def Uint128_Sub_def bits_Sub64_def split: prod.splits)

lemma u128_val_Inc: "u128_val (Uint128_Inc u) = (u128_val u + 1) mod 2 ^ 128"
  by (simp add: Uint128_Inc_Add u128_val_Add) (simp add: u128_val_def)

lemma u128_val_Dec: "u128_val (Uint128_Dec u) = (u128_val u - 1) mod 2 ^ 128"
  by (simp add: Uint128_Dec_Sub u128_val_Sub) (simp add: u128_val_def)

lemma u128_val_Mul: "u128_val (Uint128_Mul a b) = (u128_val a * u128_val b) mod 2 ^ 128"
proof -
  obtain la where la: "la = uint (lo a)" "0 \<le> la" "la < 2 ^ 64" by (rule uint64_cases)
  obtain lb where lb: "lb = uint (lo b)" "0 \<le> lb" "lb < 2 ^ 64" by (rule uint64_cases)
  define ha hb where "ha = uint (hi a)" and "hb = uint (hi b)"
  define l where "l = (la * lb) mod 2 ^ 64"
  define h where "h = (la * lb) div 2 ^ 64 + (ha * lb + la * hb)"
  have l: "0 \<le> l" "l < 2 ^ 64" by (simp_all add: l_def)
  have "Uint128_Mul a b = Uint128 (word_of_int h) (word_of_int l)"
    by (simp add: Uint128_Mul_def bits_Mul64_def h_def l_def la(1) lb(1) ha_def hb_def
        woi_mod_64 [simplified])
  then have "u128_val (Uint128_Mul a b) = (h * 2 ^ 64 + l) mod 2 ^ 128"
    using u128_val_mk [OF l, of h] by simp
  also have "h * 2 ^ 64 + l = la * lb + (ha * lb + la * hb) * 2 ^ 64"
  proof -
    have "la * lb = (la * lb) div 2 ^ 64 * 2 ^ 64 + l" by (simp add: l_def)
    then show ?thesis by (simp add: h_def algebra_simps)
  qed
  also have "(la * lb + (ha * lb + la * hb) * 2 ^ 64) mod 2 ^ 128
             = (la * lb + (ha * lb + la * hb) * 2 ^ 64 + ha * hb * 2 ^ 128) mod 2 ^ 128"
    by simp
  also have "la * lb + (ha * lb + la * hb) * 2 ^ 64 + ha * hb * 2 ^ 128
             = (ha * 2 ^ 64 + la) * (hb * 2 ^ 64 + lb)"
    by (simp add: algebra_simps)
  finally show ?thesis by (simp add: u128_val_def ha_def hb_def la(1) lb(1))
qed

lemma u128_val_less_iff:
  "u128_val a < u128_val b \<longleftrightarrow> hi a < hi b \<or> (hi a = hi b \<and> lo a < lo b)"
proof -
  obtain la where la: "la = uint (lo a)" "0 \<le> la" "la < 2 ^ 64" by (rule uint64_cases)
  obtain lb where lb: "lb = uint (lo b)" "0 \<le> lb" "lb < 2 ^ 64" by (rule uint64_cases)
  define ha hb where "ha = uint (hi a)" and "hb = uint (hi b)"
  have "ha * 2 ^ 64 + la < hb * 2 ^ 64 + lb \<longleftrightarrow> ha < hb \<or> (ha = hb \<and> la < lb)"
    using la(2,3) lb(2,3) by auto
  then show ?thesis
    by (simp add: u128_val_def word_less_def la(1) lb(1) ha_def hb_def word_uint_eq_iff)
qed

lemma u128_val_eq_iff: "u128_val a = u128_val b \<longleftrightarrow> a = b"
  using u128_val_inj by auto

lemma Uint128_Cmp_val:
  "Uint128_Cmp a b = (if u128_val a < u128_val b then - 1
                      else if u128_val a = u128_val b then 0 else 1)"
  by (cases a, cases b) (auto simp add: u128_val_less_iff u128_val_eq_iff Uint128_Cmp_def)

lemma u128_val_Rsh: "u128_val (Uint128_Rsh u n) = u128_val u div 2 ^ n"
proof -
  have "u128_val (Uint128_Rsh u n) = drop_bit n (u128_val u)"
    by (rule bit_eqI)
      (auto simp add: Uint128_Rsh_def bit_u128_val bit_simps not_less not_le ac_simps
        dest: bit_imp_le_length)
  then show ?thesis by (simp add: drop_bit_eq_div)
qed

lemma u128_val_Lsh: "u128_val (Uint128_Lsh u n) = (u128_val u * 2 ^ n) mod 2 ^ 128"
proof -
  have "u128_val (Uint128_Lsh u n) = take_bit 128 (push_bit n (u128_val u))"
    by (rule bit_eqI)
      (auto simp add: Uint128_Lsh_def bit_u128_val bit_simps not_less not_le ac_simps
        dest: bit_imp_le_length)
  then show ?thesis by (simp add: push_bit_eq_mult take_bit_eq_mod)
qed

lemma u128_val_And: "u128_val (Uint128_And a b) = u128_val a AND u128_val b"
  by (rule bit_eqI) (auto simp add: Uint128_And_def bit_u128_val bit_simps)

subsection \<open>Leading and trailing zeros\<close>

lemma take_bit_step:
  fixes X :: int
  assumes "take_bit (Suc n) X = X"
  shows "(\<not> bit X n \<longrightarrow> take_bit n X = X) \<and> (bit X n \<longrightarrow> 2 ^ n \<le> X)"
proof -
  define t where "t = take_bit n X"
  have t: "0 \<le> t" by (simp add: t_def)
  have e: "X = 2 ^ n * of_bool (bit X n) + t"
    using assms take_bit_Suc_from_most [of n X] by (simp add: t_def)
  show ?thesis
  proof (cases "bit X n")
    case True
    then have "X = 2 ^ n + t" using e by simp
    then show ?thesis using t True by linarith
  next
    case False
    then have "X = t" using e by simp
    then show ?thesis using False by (simp add: t_def)
  qed
qed

lemma clz_bounds:
  assumes "take_bit n (uint x) = uint x"
  shows "clz n x \<le> n \<and> uint x < 2 ^ (n - clz n x)
         \<and> (clz n x < n \<longrightarrow> 2 ^ (n - 1 - clz n x) \<le> uint x)"
  using assms
proof (induction n)
  case 0
  then show ?case by simp
next
  case (Suc n)
  note st = take_bit_step [OF Suc.prems]
  show ?case
  proof (cases "bit x n")
    case True
    then have "bit (uint x) n" using bit_imp_le_length [of x n] by (simp add: bit_uint_iff)
    then have "2 ^ n \<le> uint x" using st by simp
    moreover have "uint x < 2 ^ Suc n"
      using Suc.prems by (metis take_bit_int_less_exp)
    ultimately show ?thesis using True by simp
  next
    case False
    then have "\<not> bit (uint x) n" by (simp add: bit_uint_iff)
    then have "take_bit n (uint x) = uint x" using st by simp
    from Suc.IH [OF this] False show ?thesis
      by (auto simp add: Suc_diff_le)
  qed
qed

lemma LeadingZeros64_bounds:
  "bits_LeadingZeros64 x \<le> 64"
  "uint x < 2 ^ (64 - bits_LeadingZeros64 x)"
  "x \<noteq> 0 \<Longrightarrow> bits_LeadingZeros64 x \<le> 63"
  "x \<noteq> 0 \<Longrightarrow> 2 ^ (63 - bits_LeadingZeros64 x) \<le> uint x"
proof -
  have t: "take_bit 64 (uint x) = uint x"
    using uint64_lt [of x] by (simp add: take_bit_int_eq_self)
  note c = clz_bounds [OF t]
  show "bits_LeadingZeros64 x \<le> 64" "uint x < 2 ^ (64 - bits_LeadingZeros64 x)"
    using c by (simp_all add: bits_LeadingZeros64_def)
  assume "x \<noteq> 0"
  then have "uint x \<noteq> 0" by (simp add: uint_0_iff)
  have "clz 64 x \<noteq> 64"
  proof
    assume "clz 64 x = 64"
    then have "uint x < 1" using c by simp
    moreover have "0 \<le> uint x" by simp
    ultimately have "uint x = 0" by linarith
    then show False using \<open>uint x \<noteq> 0\<close> by simp
  qed
  then have l: "clz 64 x < 64" using c by simp
  then show "bits_LeadingZeros64 x \<le> 63" by (simp add: bits_LeadingZeros64_def)
  show "2 ^ (63 - bits_LeadingZeros64 x) \<le> uint x"
    using c l by (simp add: bits_LeadingZeros64_def)
qed

lemma ctz_bounds:
  "x \<noteq> 0 \<Longrightarrow> uint x < 2 ^ n \<Longrightarrow> ctz n x < n \<and> 2 ^ ctz n x dvd uint x"
proof (induction n arbitrary: x)
  case 0
  have "0 \<le> uint x" by simp
  moreover have "uint x < 1" using 0 by simp
  ultimately have "uint x = 0" by linarith
  then show ?case using 0 by (simp add: uint_0_iff)
next
  case (Suc n)
  show ?case
  proof (cases "bit x 0")
    case True
    then show ?thesis by simp
  next
    case False
    then have "\<not> bit (uint x) 0" by (simp add: bit_uint_iff)
    then have ev: "even (uint x)" by (simp only: bit_0 not_not)
    then have e: "uint x = 2 * (uint x div 2)" by simp
    have d: "uint (drop_bit 1 x) = uint x div 2"
      by (simp add: drop_bit_eq_div uint_div)
    have nz: "drop_bit 1 x \<noteq> 0"
    proof
      assume "drop_bit 1 x = 0"
      then have "uint x div 2 = 0" using d by simp
      then have "uint x = 0" using e by simp
      then show False using Suc.prems(1) by (simp add: uint_0_iff)
    qed
    have "uint (drop_bit 1 x) < 2 ^ n" using Suc.prems(2) d by simp
    from Suc.IH [OF nz this] have "ctz n (drop_bit 1 x) < n"
      and "2 ^ ctz n (drop_bit 1 x) dvd uint x div 2" by (simp_all only: d)
    then have "2 * 2 ^ ctz n (drop_bit 1 x) dvd 2 * (uint x div 2)"
      by (simp only: mult_dvd_mono dvd_refl)
    then show ?thesis
      using False \<open>ctz n (drop_bit 1 x) < n\<close> e by simp
  qed
qed

lemma TrailingZeros64_bounds:
  assumes "x \<noteq> 0"
  shows "bits_TrailingZeros64 x \<le> 63" "2 ^ bits_TrailingZeros64 x dvd uint x"
  using ctz_bounds [OF assms, of 64] uint64_lt [of x]
  by (simp_all add: bits_TrailingZeros64_def)

lemma Uint128_LeadingZeros_bounds:
  assumes "u128_val u \<noteq> 0"
  shows "Uint128_LeadingZeros u \<le> 127"
    and "2 ^ (127 - Uint128_LeadingZeros u) \<le> u128_val u"
    and "u128_val u < 2 ^ (128 - Uint128_LeadingZeros u)"
proof -
  show "Uint128_LeadingZeros u \<le> 127"
  proof (cases "hi u = 0")
    case True
    then have "lo u \<noteq> 0" using assms by (auto simp add: u128_val_def)
    then have "bits_LeadingZeros64 (lo u) \<le> 63" by (rule LeadingZeros64_bounds)
    then show ?thesis using True by (simp add: Uint128_LeadingZeros_def)
  next
    case False
    then have "bits_LeadingZeros64 (hi u) \<le> 63" by (rule LeadingZeros64_bounds)
    then show ?thesis using False by (simp add: Uint128_LeadingZeros_def)
  qed
  show "2 ^ (127 - Uint128_LeadingZeros u) \<le> u128_val u"
  proof (cases "hi u = 0")
    case True
    then have "lo u \<noteq> 0" using assms by (auto simp add: u128_val_def)
    then show ?thesis
      using True LeadingZeros64_bounds(3,4) [of "lo u"]
      by (simp add: Uint128_LeadingZeros_def u128_val_def)
  next
    case False
    define z where "z = bits_LeadingZeros64 (hi u)"
    have z: "z \<le> 63" "2 ^ (63 - z) \<le> uint (hi u)"
      using False LeadingZeros64_bounds(3,4) [of "hi u"] by (simp_all add: z_def)
    have "127 - z = (63 - z) + 64" using z(1) by simp
    then have "(2::int) ^ (127 - z) = 2 ^ (63 - z) * 2 ^ 64"
      by (simp only: power_add)
    also have "\<dots> \<le> uint (hi u) * 2 ^ 64" using z(2) by (intro mult_right_mono) simp_all
    also have "\<dots> \<le> u128_val u" by (simp add: u128_val_def)
    finally show ?thesis using False by (simp add: Uint128_LeadingZeros_def z_def)
  qed
  show "u128_val u < 2 ^ (128 - Uint128_LeadingZeros u)"
  proof (cases "hi u = 0")
    case True
    then show ?thesis
      using LeadingZeros64_bounds(1,2) [of "lo u"]
      by (simp add: Uint128_LeadingZeros_def u128_val_def)
  next
    case False
    define z where "z = bits_LeadingZeros64 (hi u)"
    have z: "z \<le> 63" "uint (hi u) < 2 ^ (64 - z)"
      using False LeadingZeros64_bounds(2,3) [of "hi u"] by (simp_all add: z_def)
    have "u128_val u < (uint (hi u) + 1) * 2 ^ 64"
      using uint64_lt [of "lo u"] by (simp add: u128_val_def algebra_simps)
    also have "\<dots> \<le> 2 ^ (64 - z) * 2 ^ 64" using z(2) by (intro mult_right_mono) simp_all
    also have "\<dots> = 2 ^ (128 - z)"
    proof -
      have "128 - z = (64 - z) + 64" using z(1) by simp
      then show ?thesis by (simp only: power_add)
    qed
    finally show ?thesis using False by (simp add: Uint128_LeadingZeros_def z_def)
  qed
qed

lemma Uint128_TrailingZeros_dvd:
  assumes "u128_val u \<noteq> 0"
  shows "2 ^ Uint128_TrailingZeros u dvd u128_val u"
proof (cases "lo u = 0")
  case True
  then have "hi u \<noteq> 0" using assms by (auto simp add: u128_val_def)
  then have "2 ^ bits_TrailingZeros64 (hi u) dvd uint (hi u)"
    by (rule TrailingZeros64_bounds)
  then have "2 ^ bits_TrailingZeros64 (hi u) * 2 ^ 64 dvd uint (hi u) * 2 ^ 64"
    by (simp only: mult_dvd_mono dvd_refl)
  then show ?thesis
    using True by (simp add: Uint128_TrailingZeros_def u128_val_def power_add)
next
  case False
  then have "2 ^ bits_TrailingZeros64 (lo u) dvd uint (lo u)"
    by (rule TrailingZeros64_bounds)
  moreover have "(2::int) ^ bits_TrailingZeros64 (lo u) dvd 2 ^ 64"
    using TrailingZeros64_bounds(1) [OF False] by (intro le_imp_power_dvd) simp
  ultimately show ?thesis
    using False by (simp add: Uint128_TrailingZeros_def u128_val_def)
qed

subsection \<open>The 128-by-128 division\<close>

lemma int_lt_succ_mult: "0 < V \<Longrightarrow> N < (N div V + 1) * V" for N V :: int
proof -
  assume V: "0 < V"
  have "N = V * (N div V) + N mod V" by simp
  moreover have "N mod V < V" using V by (rule pos_mod_bound)
  ultimately have "N < V * (N div V) + V" by linarith
  then show ?thesis by (simp add: algebra_simps)
qed

lemma int_div_mult_le: "0 < V \<Longrightarrow> N div V * V \<le> N" for N V :: int
proof -
  assume V: "0 < V"
  have "N = V * (N div V) + N mod V" by simp
  moreover have "0 \<le> N mod V" using V by simp
  ultimately have "V * (N div V) \<le> N" by linarith
  then show ?thesis by (simp add: mult.commute)
qed

text \<open>
  The quotient estimate of the 128-by-128 path: dividing half the dividend by the top 64
  bits of the normalised divisor and undoing the scaling is the quotient or one more.
\<close>

lemma hd_estimate:
  fixes M Vv :: int and n :: nat
  assumes M: "0 \<le> M" "M < 2 ^ 128" and n: "n \<le> 63"
    and Vv: "2 ^ (127 - n) \<le> Vv" "Vv < 2 ^ (128 - n)"
  defines "v1h \<equiv> (Vv * 2 ^ n) div 2 ^ 64"
  defines "q0 \<equiv> ((M div 2) div v1h) div 2 ^ (63 - n)"
  shows "M div Vv \<le> q0" and "q0 \<le> M div Vv + 1" and "2 ^ 63 \<le> v1h" and "v1h < 2 ^ 64"
proof -
  define e :: int where "e = 2 ^ (64 - n)"
  have epos: "0 < e" by (simp add: e_def)
  have p64: "(2::int) ^ 64 = 2 ^ n * e"
  proof -
    have "64 = n + (64 - n)" using n by simp
    then show ?thesis unfolding e_def by (metis power_add)
  qed
  have p127: "(2::int) ^ (127 - n) = 2 ^ 63 * e"
  proof -
    have "127 - n = 63 + (64 - n)" using n by simp
    then show ?thesis unfolding e_def by (metis power_add)
  qed
  have p128: "(2::int) ^ (128 - n) = 2 ^ 64 * e"
  proof -
    have "128 - n = 64 + (64 - n)" using n by simp
    then show ?thesis unfolding e_def by (metis power_add)
  qed
  have pe: "(2::int) * 2 ^ (63 - n) = e"
  proof -
    have "64 - n = Suc (63 - n)" using n by simp
    then show ?thesis unfolding e_def by simp
  qed
  have v1h: "v1h = Vv div e"
    unfolding v1h_def p64 by (simp add: mult.commute)
  have Vpos: "0 < Vv"
  proof -
    have "(0::int) < 2 ^ (127 - n)" by simp
    then show ?thesis using Vv(1) by linarith
  qed
  show lo: "2 ^ 63 \<le> v1h"
    unfolding v1h using Vv(1) epos by (intro int_le_div) (simp_all add: p127)
  show hi: "v1h < 2 ^ 64"
    unfolding v1h using Vv(2) epos by (intro int_div_less) (simp_all add: p128)
  have v1pos: "0 < v1h" using lo by simp
  define D where "D = v1h * e"
  have Dpos: "0 < D" using v1pos epos by (simp add: D_def)
  have DV: "D \<le> Vv" unfolding D_def v1h using epos by (rule int_div_mult_le)
  have "Vv < (Vv div e + 1) * e" using epos by (rule int_lt_succ_mult)
  then have VD: "Vv - D \<le> e - 1" by (simp add: D_def v1h algebra_simps)
  have "q0 = M div (2 * v1h) div 2 ^ (63 - n)"
    unfolding q0_def using v1pos by (simp add: zdiv_zmult2_eq)
  also have "\<dots> = M div (2 * v1h * 2 ^ (63 - n))"
    by (simp add: zdiv_zmult2_eq)
  also have "2 * v1h * 2 ^ (63 - n) = D"
    using pe by (simp add: D_def algebra_simps)
  finally have q0: "q0 = M div D" .
  define Q where "Q = M div Vv"
  have Q0: "0 \<le> Q" using M Vpos by (simp add: Q_def pos_imp_zdiv_nonneg_iff)
  show "M div Vv \<le> q0"
    unfolding q0 using M(1) Dpos DV by (rule zdiv_mono2)
  have MQ: "M < (Q + 1) * Vv" unfolding Q_def using Vpos by (rule int_lt_succ_mult)
  have "Q * 2 ^ (127 - n) \<le> Q * Vv" using Q0 Vv(1) by (rule mult_left_mono [rotated])
  also have "\<dots> \<le> M" unfolding Q_def using Vpos by (rule int_div_mult_le)
  also have "\<dots> < 2 ^ 128" by (rule M(2))
  also have "(2::int) ^ 128 = 2 ^ Suc n * 2 ^ (127 - n)"
  proof -
    have "128 = Suc n + (127 - n)" using n by simp
    then show ?thesis by (metis power_add)
  qed
  finally have "Q < 2 ^ Suc n" by simp
  then have Q1: "Q + 1 \<le> 2 ^ Suc n" by simp
  have e1: "0 \<le> e - 1" using epos by simp
  have "(Q + 1) * (Vv - D) \<le> 2 ^ Suc n * (e - 1)"
    using Q1 VD Q0 e1 DV by (intro mult_mono) simp_all
  also have "\<dots> = 2 ^ 65 - 2 ^ Suc n"
  proof -
    have "(2::int) ^ Suc n * e = 2 * (2 ^ n * e)" by simp
    also have "\<dots> = 2 ^ 65" by (simp only: p64 [symmetric]) simp
    finally show ?thesis by (simp add: algebra_simps)
  qed
  also have "\<dots> \<le> 2 ^ 63 * e"
  proof (cases "n = 63")
    case True
    then show ?thesis by (simp add: e_def)
  next
    case False
    then have "n \<le> 62" using n by simp
    then have "65 \<le> 127 - n" by simp
    then have "(2::int) ^ 65 \<le> 2 ^ (127 - n)" by (intro power_increasing) simp_all
    moreover have "(0::int) \<le> 2 ^ Suc n" by simp
    ultimately show ?thesis unfolding p127 [symmetric] by linarith
  qed
  also have "\<dots> \<le> D" unfolding D_def using lo epos by (intro mult_right_mono) simp_all
  finally have "(Q + 1) * (Vv - D) \<le> D" .
  then have "(Q + 1) * Vv \<le> (Q + 2) * D" by (simp add: algebra_simps)
  then have "M < (Q + 2) * D" using MQ by linarith
  then have "M div D < Q + 2" using Dpos by (intro int_div_less)
  then show "q0 \<le> M div Vv + 1" by (simp add: q0 Q_def)
qed

lemma u128_val_lo_only: "0 \<le> x \<Longrightarrow> x < 2 ^ 64 \<Longrightarrow> u128_val (Uint128 0 (word_of_int x)) = x"
  by (simp add: u128_val_def woi_uint)

lemma ret_eq: "ret x = Some (Inr x)"
  by (simp add: ret_def)

lemma norm64:
  assumes "x \<noteq> 0"
  shows "2 ^ 63 \<le> uint x * 2 ^ bits_LeadingZeros64 x"
    and "uint x * 2 ^ bits_LeadingZeros64 x < 2 ^ 64"
    and "bits_LeadingZeros64 x < 64"
proof -
  define s where "s = bits_LeadingZeros64 x"
  have s: "s \<le> 63" "2 ^ (63 - s) \<le> uint x" "uint x < 2 ^ (64 - s)"
    using LeadingZeros64_bounds [of x] assms by (simp_all add: s_def)
  have "(2::int) ^ 63 = 2 ^ (63 - s) * 2 ^ s"
  proof -
    have "63 = (63 - s) + s" using s(1) by simp
    then show ?thesis by (metis power_add)
  qed
  also have "\<dots> \<le> uint x * 2 ^ s" using s(2) by (intro mult_right_mono) simp_all
  finally show "2 ^ 63 \<le> uint x * 2 ^ bits_LeadingZeros64 x" by (simp add: s_def)
  have "uint x * 2 ^ s < 2 ^ (64 - s) * 2 ^ s" using s(3) by simp
  also have "\<dots> = 2 ^ 64"
  proof -
    have "64 = (64 - s) + s" using s(1) by simp
    then show ?thesis by (metis power_add)
  qed
  finally show "uint x * 2 ^ bits_LeadingZeros64 x < 2 ^ 64" by (simp add: s_def)
  show "bits_LeadingZeros64 x < 64" using s(1) by (simp add: s_def)
qed

lemma quorem128by128_small:
  assumes v: "hi v = 0" "lo v \<noteq> 0"
  shows "\<exists>q r. quorem128by128 m v vHi (bits_LeadingZeros64 (lo v)) = ret (q, r)
           \<and> u128_val q = u128_val m div u128_val v
           \<and> u128_val r = u128_val m mod u128_val v"
proof -
  obtain d where d: "d = uint (lo v)" "0 \<le> d" "d < 2 ^ 64" by (rule uint64_cases)
  obtain hm where hm: "hm = uint (hi m)" "0 \<le> hm" "hm < 2 ^ 64" by (rule uint64_cases)
  obtain lm where lm: "lm = uint (lo m)" "0 \<le> lm" "lm < 2 ^ 64" by (rule uint64_cases)
  have dpos: "0 < d" using v(2) d(2) by (simp add: d(1) order_less_le uint_0_iff)
  have Vv: "u128_val v = d" using v(1) by (simp add: u128_val_def d(1))
  have M: "u128_val m = hm * 2 ^ 64 + lm" by (simp add: u128_val_def hm(1) lm(1))
  note nz = norm64 [OF v(2)]
  show ?thesis
  proof (cases "hi m < lo v")
    case True
    then have hd: "hm < d" by (simp add: word_less_def hm(1) d(1))
    define Qd where "Qd = (hm * 2 ^ 64 + lm) div d"
    define Rd where "Rd = (hm * 2 ^ 64 + lm) mod d"
    have "hm * 2 ^ 64 + lm < (hm + 1) * 2 ^ 64" using lm(3) by (simp add: algebra_simps)
    also have "\<dots> \<le> d * 2 ^ 64" using hd by (intro mult_right_mono) simp_all
    finally have "hm * 2 ^ 64 + lm < 2 ^ 64 * d" by (simp add: mult.commute)
    then have Q: "0 \<le> Qd" "Qd < 2 ^ 64"
      using dpos hm(2) lm(2) by (simp_all add: Qd_def pos_imp_zdiv_nonneg_iff int_div_less)
    have R: "0 \<le> Rd" "Rd < 2 ^ 64"
      using dpos d(3) int_mod_lt [OF dpos, of "2 ^ 64"] by (simp_all add: Rd_def)
    have "quorem128by64 (hi m) (lo m) (lo v) (bits_LeadingZeros64 (lo v))
          = ret (word_of_int Qd, word_of_int Rd)"
      using divlu_correct(1) [OF nz(3) nz(1,2) True, of "lo m"]
      by (simp only: Qd_def Rd_def hm(1) lm(1) d(1))
    then have "quorem128by128 m v vHi (bits_LeadingZeros64 (lo v))
               = ret (Uint128 0 (word_of_int Qd), Uint128 0 (word_of_int Rd))"
      using v True by (simp add: quorem128by128_def ret_eq)
    then show ?thesis
      using u128_val_lo_only [OF Q] u128_val_lo_only [OF R]
      by (intro exI [of _ "Uint128 0 (word_of_int Qd)"] exI [of _ "Uint128 0 (word_of_int Rd)"])
        (simp add: M Vv Qd_def Rd_def)
  next
    case False
    define X where "X = (hm mod d) * 2 ^ 64 + lm"
    define Qd where "Qd = X div d"
    define Rd where "Rd = X mod d"
    have r: "hi m mod lo v < lo v"
      using v(2) by (simp add: word_mod_less_divisor word_gt_0)
    have ur: "uint (hi m mod lo v) = hm mod d" by (simp add: uint_mod hm(1) d(1))
    have hr: "0 \<le> hm mod d" "hm mod d < d" using dpos by simp_all
    have X0: "0 \<le> X" using hr(1) lm(2) by (simp add: X_def)
    have "X < (hm mod d + 1) * 2 ^ 64" using lm(3) by (simp add: X_def algebra_simps)
    also have "\<dots> \<le> d * 2 ^ 64" using hr(2) by (intro mult_right_mono) simp_all
    finally have "X < 2 ^ 64 * d" by (simp add: mult.commute)
    then have Q: "0 \<le> Qd" "Qd < 2 ^ 64"
      using dpos X0 by (simp_all add: Qd_def pos_imp_zdiv_nonneg_iff int_div_less)
    have R: "0 \<le> Rd" "Rd < 2 ^ 64"
      using dpos d(3) int_mod_lt [OF dpos, of "2 ^ 64"] by (simp_all add: Rd_def)
    have "quorem128by64 (hi m mod lo v) (lo m) (lo v) (bits_LeadingZeros64 (lo v))
          = ret (word_of_int Qd, word_of_int Rd)"
      using divlu_correct(1) [OF nz(3) nz(1,2) r, of "lo m"]
      by (simp only: Qd_def Rd_def X_def ur lm(1) d(1))
    then have e: "quorem128by128 m v vHi (bits_LeadingZeros64 (lo v))
               = ret (Uint128 (hi m div lo v) (word_of_int Qd), Uint128 0 (word_of_int Rd))"
      using v False by (simp add: quorem128by128_def ret_eq)
    have qv: "u128_val (Uint128 (hi m div lo v) (word_of_int Qd)) = (hm div d) * 2 ^ 64 + Qd"
      using Q by (simp add: u128_val_def woi_uint uint_div hm(1) d(1))
    have eq: "hm * 2 ^ 64 + lm = d * (hm div d * 2 ^ 64 + Qd) + Rd"
    proof -
      define hq hr where "hq = hm div d" and "hr = hm mod d"
      have h: "hm = d * hq + hr" by (simp add: hq_def hr_def)
      have x: "X = d * Qd + Rd" by (simp add: Qd_def Rd_def)
      have "hr * 2 ^ 64 + lm = d * Qd + Rd" using x by (simp add: X_def hr_def)
      then have "hm * 2 ^ 64 + lm = d * (hq * 2 ^ 64 + Qd) + Rd"
        by (simp add: h algebra_simps)
      then show ?thesis by (simp only: hq_def)
    qed
    have rb: "0 \<le> Rd" "Rd < d" using dpos by (simp_all add: Rd_def)
    have "(hm * 2 ^ 64 + lm) div d = hm div d * 2 ^ 64 + Qd"
      using eq rb by (rule int_div_pos_eq)
    moreover have "(hm * 2 ^ 64 + lm) mod d = Rd"
      using eq rb by (rule int_mod_pos_eq)
    ultimately show ?thesis
      using e qv u128_val_lo_only [OF R]
      by (intro exI [of _ "Uint128 (hi m div lo v) (word_of_int Qd)"]
          exI [of _ "Uint128 0 (word_of_int Rd)"])
        (simp add: M Vv)
  qed
qed

lemma or_zero_iff: "x OR y = 0 \<longleftrightarrow> x = 0 \<and> y = 0" for x y :: uint64
  by (rule or_eq_0_iff)

lemma u128_val_zero_iff: "u128_val u = 0 \<longleftrightarrow> hi u = 0 \<and> lo u = 0"
proof -
  have "u128_val u = 0 \<longleftrightarrow> u = Uint128 0 0"
    using u128_val_eq_iff [of u "Uint128 0 0"] by (simp add: u128_val_def)
  then show ?thesis by (cases u) simp
qed

lemma quorem128by128_big:
  assumes v: "hi v \<noteq> 0"
  shows "\<exists>q r. quorem128by128 m v (bits_LeadingZeros64 (hi v)) 0 = ret (q, r)
           \<and> u128_val q = u128_val m div u128_val v
           \<and> u128_val r = u128_val m mod u128_val v"
proof -
  define n where "n = bits_LeadingZeros64 (hi v)"
  define M where "M = u128_val m"
  define Vv where "Vv = u128_val v"
  have M: "0 \<le> M" "M < 2 ^ 128" using u128_val_ge0 u128_val_lt by (simp_all add: M_def)
  have vnz: "u128_val v \<noteq> 0" using v by (simp add: u128_val_zero_iff)
  have lzv: "Uint128_LeadingZeros v = n" using v by (simp add: Uint128_LeadingZeros_def n_def)
  have n: "n \<le> 63" using v LeadingZeros64_bounds(3) [of "hi v"] by (simp add: n_def)
  have Vb: "2 ^ (127 - n) \<le> Vv" "Vv < 2 ^ (128 - n)"
    using Uint128_LeadingZeros_bounds(2,3) [OF vnz] by (simp_all add: lzv Vv_def)
  have Vpos: "0 < Vv"
  proof -
    have "(0::int) < 2 ^ (127 - n)" by simp
    then show ?thesis using Vb(1) by linarith
  qed
  define v1h where "v1h = (Vv * 2 ^ n) div 2 ^ 64"
  define Q1 where "Q1 = (M div 2) div v1h"
  define q0 where "q0 = Q1 div 2 ^ (63 - n)"
  note hd = hd_estimate [OF M n Vb, folded v1h_def, folded Q1_def, folded q0_def]
  define Q where "Q = M div Vv"
  have Q0: "0 \<le> Q" using M Vpos by (simp add: Q_def pos_imp_zdiv_nonneg_iff)
  have QV: "Q * Vv \<le> M" unfolding Q_def using Vpos by (rule int_div_mult_le)
  text \<open>the normalised divisor and the halved dividend\<close>
  define v1 where "v1 = Uint128_Lsh v n"
  define u1 where "u1 = Uint128_Rsh m 1"
  have "Vv * 2 ^ n < 2 ^ (128 - n) * 2 ^ n" using Vb(2) by simp
  also have "\<dots> = 2 ^ 128"
  proof -
    have "128 = (128 - n) + n" using n by simp
    then show ?thesis by (metis power_add)
  qed
  finally have "Vv * 2 ^ n < 2 ^ 128" .
  moreover have "0 \<le> Vv * 2 ^ n" using Vpos by simp
  ultimately have v1v: "u128_val v1 = Vv * 2 ^ n"
    by (simp add: v1_def u128_val_Lsh Vv_def)
  have hv1: "uint (hi v1) = v1h"
    using u128_val_hi [of v1] by (simp add: v1v v1h_def)
  have u1v: "u128_val u1 = M div 2" by (simp add: u1_def u128_val_Rsh M_def)
  have "u128_val u1 div 2 ^ 64 < 2 ^ 63"
    using M(2) by (intro int_div_less) (simp_all add: u1v)
  then have hu1: "uint (hi u1) < 2 ^ 63" by (simp only: u128_val_hi)
  have lt: "hi u1 < hi v1"
    using hu1 hd(3) by (simp add: word_less_def hv1)
  have nv: "2 ^ 63 \<le> uint (hi v1) * 2 ^ 0" "uint (hi v1) * 2 ^ 0 < 2 ^ 64"
    using hd(3,4) by (simp_all add: hv1)
  have "uint (hi u1) * 2 ^ 64 + uint (lo u1) = M div 2"
    using u1v by (simp add: u128_val_def)
  then have e1: "quo128by64 (hi u1) (lo u1) (hi v1) 0 = ret (word_of_int Q1)"
    using divlu_correct(2) [OF _ nv lt, of "lo u1"] by (simp add: hv1 Q1_def)
  have v1pos: "0 < v1h" using hd(3) by simp
  have Q1r: "0 \<le> Q1" "Q1 < 2 ^ 64"
  proof -
    show "0 \<le> Q1" using M(1) v1pos by (simp add: Q1_def pos_imp_zdiv_nonneg_iff)
    have "M div 2 < 2 ^ 127" using M(2) by simp
    also have "\<dots> \<le> 2 ^ 64 * v1h" using hd(3) by simp
    finally have "M div 2 < 2 ^ 64 * v1h" .
    with v1pos show "Q1 < 2 ^ 64" unfolding Q1_def by (rule int_div_less)
  qed
  text \<open>the estimate, made too small by at most one\<close>
  define q1 where "q1 = Uint128_Rsh (Uint128 0 (word_of_int Q1)) (uint_sub 63 n)"
  have "uint_sub 63 n = 63 - n" using n by (simp add: uint_sub_def)
  then have q1v: "u128_val q1 = q0"
    using u128_val_lo_only [OF Q1r] by (simp add: q1_def u128_val_Rsh q0_def)
  define q' where "q' = (if hi q1 OR lo q1 \<noteq> 0 then Uint128_Dec q1 else q1)"
  have q0r: "Q \<le> q0" "q0 \<le> Q + 1" using hd(1,2) by (simp_all add: Q_def)
  have q'v: "u128_val q' = (if q0 = 0 then 0 else q0 - 1)"
  proof (cases "q0 = 0")
    case True
    then show ?thesis
      using q1v by (simp add: q'_def or_zero_iff u128_val_zero_iff [symmetric])
  next
    case False
    have "0 \<le> q0 - 1" using False q0r Q0 by simp
    moreover have "q0 - 1 < 2 ^ 128" using u128_val_lt [of q1] by (simp add: q1v)
    ultimately have "(q0 - 1) mod 2 ^ 128 = q0 - 1" by simp
    then show ?thesis
      using False q1v by (simp add: q'_def or_zero_iff u128_val_zero_iff [symmetric] u128_val_Dec)
  qed
  define qv where "qv = u128_val q'"
  have qvr: "0 \<le> qv" "qv \<le> Q" "Q \<le> qv + 1"
    using q0r Q0 by (auto simp add: qv_def q'v)
  have "qv * Vv \<le> Q * Vv" using qvr(2) Vpos by (intro mult_right_mono) simp_all
  then have le: "qv * Vv \<le> M" using QV by linarith
  have ge: "0 \<le> qv * Vv" using qvr(1) Vpos by simp
  have mulv: "u128_val (Uint128_Mul q' v) = qv * Vv"
    using le ge M(2) by (simp add: u128_val_Mul qv_def [symmetric] Vv_def [symmetric])
  define r where "r = Uint128_Sub m (Uint128_Mul q' v)"
  have rv: "u128_val r = M - qv * Vv"
    using le ge M by (simp add: r_def u128_val_Sub mulv M_def [symmetric])
  have cmp: "Uint128_Cmp r v \<ge> 0 \<longleftrightarrow> Vv \<le> M - qv * Vv"
    by (simp add: Uint128_Cmp_val rv Vv_def [symmetric])
  have vF: "hi v = 0 \<longleftrightarrow> False" using v by simp
  have res: "quorem128by128 m v n 0
        = (if Vv \<le> M - qv * Vv then ret (Uint128_Inc q', Uint128_Sub r v) else ret (q', r))"
    unfolding quorem128by128_def Let_def
    by (simp only: vF if_False e1 [unfolded u1_def v1_def] ret_eq bind_r_ret
        q1_def [symmetric] q'_def [symmetric] r_def [symmetric] cmp)
  have Mmod: "M mod Vv = M - Q * Vv"
    by (simp add: Q_def minus_div_mult_eq_mod [symmetric])
  have modr: "0 \<le> M mod Vv" "M mod Vv < Vv" using Vpos by simp_all
  show ?thesis
  proof (cases "qv = Q")
    case True
    then have "\<not> Vv \<le> M - qv * Vv" using Mmod modr by simp
    then have "quorem128by128 m v n 0 = ret (q', r)" using res by simp
    moreover have "u128_val q' = M div Vv" using True by (simp add: qv_def Q_def)
    moreover have "u128_val r = M mod Vv" using True by (simp add: rv Mmod)
    ultimately show ?thesis
      unfolding n_def M_def Vv_def by blast
  next
    case False
    then have qq: "qv = Q - 1" using qvr by simp
    have rm: "M - qv * Vv = M mod Vv + Vv" by (simp add: qq Mmod algebra_simps)
    then have "Vv \<le> M - qv * Vv" using modr by simp
    then have "quorem128by128 m v n 0 = ret (Uint128_Inc q', Uint128_Sub r v)"
      using res by simp
    moreover have "u128_val (Uint128_Inc q') = M div Vv"
    proof -
      have "Q * 1 \<le> Q * Vv" using Q0 Vpos by (intro mult_left_mono) simp_all
      then have "Q < 2 ^ 128" using QV M(2) by linarith
      then show ?thesis
        using Q0 by (simp add: u128_val_Inc qv_def [symmetric] qq Q_def [symmetric])
    qed
    moreover have "u128_val (Uint128_Sub r v) = M mod Vv"
    proof -
      have "M mod Vv < 2 ^ 128" using modr(2) u128_val_lt [of v] by (simp add: Vv_def)
      then have "(M mod Vv) mod 2 ^ 128 = M mod Vv" using modr(1) by simp
      then show ?thesis by (simp add: u128_val_Sub rv rm Vv_def [symmetric])
    qed
    ultimately show ?thesis
      unfolding n_def M_def Vv_def by blast
  qed
qed

subsection \<open>Binary long division\<close>

lemma Lsh1: "Uint128 (push_bit 1 (hi q) OR drop_bit 63 (lo q)) (push_bit 1 (lo q)) = Uint128_Lsh q 1"
  by (simp add: Uint128_Lsh_def)

lemma Rsh1: "Uint128 (drop_bit 1 (hi b)) (drop_bit 1 (lo b) OR push_bit 63 (hi b)) = Uint128_Rsh b 1"
  by (simp add: Uint128_Rsh_def)

lemma fits_iff:
  "hi u > hi b \<or> (hi u = hi b \<and> lo u \<ge> lo b) \<longleftrightarrow> u128_val b \<le> u128_val u"
  using u128_val_less_iff [of u b] by (auto simp add: not_less)

lemma set_low_bit:
  assumes "even (u128_val q)"
  shows "u128_val (Uint128 (hi q) (lo q OR 1)) = u128_val q + 1"
proof -
  have "even (uint (lo q))"
    using assms by (simp add: u128_val_def)
  then have "\<not> bit (lo q) 0" by (simp add: bit_0 flip: bit_uint_iff [of "lo q" 0, simplified])
  then have "lo q + 1 = lo q OR 1"
    by (intro disjunctive_add_eq_or bit_eqI) (auto simp add: bit_simps bit_1_iff intro!: gr0I)
  moreover have "uint (lo q + 1) = uint (lo q) + 1"
  proof -
    have "uint (lo q) \<noteq> 2 ^ 64 - 1" using \<open>even (uint (lo q))\<close> by auto
    then have "uint (lo q) + 1 < 2 ^ 64" using uint64_lt [of "lo q"] by simp
    then show ?thesis by (simp add: uint_word_ariths)
  qed
  ultimately show ?thesis by (simp add: u128_val_def)
qed

lemma bin_loop_correct:
  fixes k :: nat
  assumes "0 < B" and "u128_val b = B * 2 ^ k" and "u128_val u < 2 * u128_val b"
    and "U0 = u128_val q * (2 * u128_val b) + u128_val u" and "U0 < 2 ^ 128"
  shows "\<exists>qf rf. bin_loop u b q (int k) = (qf, rf)
           \<and> U0 = u128_val qf * B + u128_val rf \<and> u128_val rf < B"
  using assms
proof (induction k arbitrary: u b q)
  case 0
  define f :: int where "f = (if u128_val b \<le> u128_val u then 1 else 0)"
  have bB: "u128_val b = B" using 0 by simp
  have qn: "0 \<le> u128_val q" "0 \<le> u128_val u" by (simp_all add: u128_val_ge0)
  have "u128_val q * 1 \<le> u128_val q * u128_val b"
    using qn(1) 0(1) bB by (intro mult_left_mono) simp_all
  moreover have "U0 = 2 * (u128_val q * u128_val b) + u128_val u"
    using 0(4) by simp
  ultimately have "2 * u128_val q \<le> U0" using qn(2) by linarith
  then have q2: "2 * u128_val q < 2 ^ 128" using 0(5) by simp
  define q1 where "q1 = Uint128_Lsh q 1"
  have q1v: "u128_val q1 = 2 * u128_val q"
    using q2 qn by (simp add: q1_def u128_val_Lsh)
  define u' where "u' = (if u128_val b \<le> u128_val u then Uint128_Sub u b else u)"
  define q' where "q' = (if u128_val b \<le> u128_val u
      then Uint128 (hi q1) (lo q1 OR 1) else q1)"
  have u'v: "u128_val u' = u128_val u - f * B"
    using u128_val_lt [of u] qn 0(1) by (simp add: u'_def f_def u128_val_Sub bB)
  have q'v: "u128_val q' = 2 * u128_val q + f"
    using set_low_bit [of q1] by (simp add: q'_def f_def q1v)
  have "bin_loop u b q (int 0) = (q', u')"
    by (subst bin_loop.simps)
      (simp only: Let_def Lsh1 fits_iff u'_def q'_def q1_def, simp)
  moreover have "U0 = u128_val q' * B + u128_val u'"
    by (simp add: q'v u'v 0(4) bB algebra_simps)
  moreover have "u128_val u' < B"
    using 0(3) by (simp add: u'v bB f_def)
  ultimately show ?case by blast
next
  case (Suc k)
  define f :: int where "f = (if u128_val b \<le> u128_val u then 1 else 0)"
  define b2 where "b2 = B * 2 ^ k"
  have bB: "u128_val b = 2 * b2" using Suc.prems(2) by (simp add: b2_def)
  have b2pos: "0 < b2" using Suc.prems(1) by (simp add: b2_def)
  have qn: "0 \<le> u128_val q" "0 \<le> u128_val u" by (simp_all add: u128_val_ge0)
  have "u128_val q * 1 \<le> u128_val q * u128_val b"
    using qn(1) b2pos bB by (intro mult_left_mono) simp_all
  moreover have "U0 = 2 * (u128_val q * u128_val b) + u128_val u"
    using Suc.prems(4) by simp
  ultimately have "2 * u128_val q \<le> U0" using qn(2) by linarith
  then have q2: "2 * u128_val q < 2 ^ 128" using Suc.prems(5) by simp
  define q1 where "q1 = Uint128_Lsh q 1"
  have q1v: "u128_val q1 = 2 * u128_val q"
    using q2 qn by (simp add: q1_def u128_val_Lsh)
  define u' where "u' = (if u128_val b \<le> u128_val u then Uint128_Sub u b else u)"
  define q' where "q' = (if u128_val b \<le> u128_val u
      then Uint128 (hi q1) (lo q1 OR 1) else q1)"
  define b' where "b' = Uint128_Rsh b 1"
  have u'v: "u128_val u' = u128_val u - f * (2 * b2)"
    using u128_val_lt [of u] qn b2pos by (simp add: u'_def f_def u128_val_Sub bB)
  have q'v: "u128_val q' = 2 * u128_val q + f"
    using set_low_bit [of q1] by (simp add: q'_def f_def q1v)
  have b'v: "u128_val b' = B * 2 ^ k" by (simp add: b'_def u128_val_Rsh bB b2_def)
  have step: "bin_loop u b q (int (Suc k)) = bin_loop u' b' q' (int k)"
    by (subst bin_loop.simps)
      (simp only: Let_def Lsh1 Rsh1 fits_iff u'_def q'_def b'_def q1_def, simp)
  have 1: "u128_val u' < 2 * u128_val b'"
    using Suc.prems(3) by (simp add: u'v b'v bB f_def b2_def)
  have 2: "U0 = u128_val q' * (2 * u128_val b') + u128_val u'"
    by (simp add: q'v u'v b'v Suc.prems(4) bB b2_def algebra_simps)
  from Suc.IH [OF Suc.prems(1) b'v 1 2 Suc.prems(5)] step show ?case by simp
qed

lemma pow2_between:
  fixes x :: int
  assumes "2 ^ t \<le> x" "x < 2 ^ Suc t" "2 ^ t dvd x"
  shows "x = 2 ^ t"
proof -
  obtain c where c: "x = 2 ^ t * c" using assms(3) by (auto simp: dvd_def)
  have p: "(0::int) < 2 ^ t" by simp
  have "(2::int) ^ t * 1 \<le> 2 ^ t * c" using assms(1) c by simp
  then have "1 \<le> c" by (simp only: mult_le_cancel_left_pos [OF p])
  have "(2::int) ^ t * c < 2 ^ t * 2" using assms(2) c by simp
  then have "c < 2" by (simp only: mult_less_cancel_left_pos [OF p])
  with \<open>1 \<le> c\<close> have "c = 1" by simp
  then show ?thesis using c by simp
qed

lemma power_lt_imp_lt: "(2::int) ^ a < 2 ^ b \<Longrightarrow> a < b"
  by (simp add: power_strict_increasing_iff)

lemma divmod_unique:
  fixes U B q r :: int
  assumes "U = q * B + r" "0 \<le> r" "r < B"
  shows "q = U div B" "r = U mod B"
proof -
  have e: "U = B * q + r" using assms(1) by (simp add: mult.commute)
  show "q = U div B" using int_div_pos_eq [OF e assms(2,3)] by simp
  show "r = U mod B" using int_mod_pos_eq [OF e assms(2,3)] by simp
qed

lemma quorem128bin_correct:
  assumes by0: "u128_val byv \<noteq> 0" and gt: "u128_val byv < u128_val u"
  shows "\<exists>q r. quorem128bin u byv (Uint128_LeadingZeros u) (Uint128_LeadingZeros byv) = (q, r)
           \<and> u128_val q = u128_val u div u128_val byv
           \<and> u128_val r = u128_val u mod u128_val byv"
    and "Uint128_LeadingZeros u \<le> Uint128_LeadingZeros byv"
proof -
  define B where "B = u128_val byv"
  define U where "U = u128_val u"
  define zb where "zb = Uint128_LeadingZeros byv"
  define zu where "zu = Uint128_LeadingZeros u"
  have Bpos: "0 < B" using by0 u128_val_ge0 [of byv] by (simp add: B_def)
  have u0: "u128_val u \<noteq> 0" using gt u128_val_ge0 [of byv] by simp
  have zbb: "zb \<le> 127" "2 ^ (127 - zb) \<le> B" "B < 2 ^ (128 - zb)"
    using Uint128_LeadingZeros_bounds [OF by0] by (simp_all add: zb_def B_def)
  have zub: "zu \<le> 127" "2 ^ (127 - zu) \<le> U" "U < 2 ^ (128 - zu)"
    using Uint128_LeadingZeros_bounds [OF u0] by (simp_all add: zu_def U_def)
  have "(2::int) ^ (127 - zb) < 2 ^ (128 - zu)"
    using zbb(2) zub(3) gt unfolding B_def U_def by linarith
  then have "127 - zb < 128 - zu" by (rule power_lt_imp_lt)
  then have le: "zu \<le> zb" using zbb(1) zub(1) by simp
  then show "Uint128_LeadingZeros u \<le> Uint128_LeadingZeros byv" by (simp add: zu_def zb_def)
  define k where "k = zb - zu"
  have us: "uint_sub zb zu = k" using le by (simp add: uint_sub_def k_def)
  have "k < 2 ^ 63"
  proof -
    have "k \<le> 127" using zbb(1) by (simp add: k_def)
    also have "\<dots> < (2::nat) ^ 63" by simp
    finally show ?thesis .
  qed
  then have ui: "uint_to_int k = int k" by (simp add: uint_to_int_def)
  have p1: "(2::int) ^ (128 - zu) = 2 ^ (128 - zb) * 2 ^ k"
  proof -
    have "128 - zu = (128 - zb) + k" using le zbb(1) by (simp add: k_def)
    then show ?thesis by (metis power_add)
  qed
  have p2: "(2::int) ^ (128 - zu) = 2 * (2 ^ (127 - zb) * 2 ^ k)"
  proof -
    have "128 - zu = Suc ((127 - zb) + k)" using le zbb(1) by (simp add: k_def)
    then show ?thesis by (simp add: power_add)
  qed
  have "B * 2 ^ k < 2 ^ (128 - zb) * 2 ^ k" using zbb(3) by simp
  also have "\<dots> \<le> 2 ^ 128" unfolding p1 [symmetric] by (intro power_increasing) simp_all
  finally have "B * 2 ^ k < 2 ^ 128" .
  moreover have "0 \<le> B * 2 ^ k" using Bpos by simp
  ultimately have bv: "u128_val (Uint128_Lsh byv k) = B * 2 ^ k"
    by (simp add: u128_val_Lsh B_def)
  have "2 ^ (127 - zb) * 2 ^ k \<le> B * 2 ^ k" using zbb(2) by (intro mult_right_mono) simp_all
  then have 1: "u128_val u < 2 * u128_val (Uint128_Lsh byv k)"
    using zub(3) unfolding p2 bv U_def by linarith
  have 2: "U = u128_val (Uint128 0 0) * (2 * u128_val (Uint128_Lsh byv k)) + u128_val u"
    by (simp add: u128_val_def U_def)
  have 3: "U < 2 ^ 128" using u128_val_lt by (simp add: U_def)
  from bin_loop_correct [OF Bpos bv 1 2 3]
  obtain qf rf where r: "bin_loop u (Uint128_Lsh byv k) (Uint128 0 0) (int k) = (qf, rf)"
      "U = u128_val qf * B + u128_val rf" "u128_val rf < B"
    by blast
  have "quorem128bin u byv zu zb = (qf, rf)"
    by (simp add: quorem128bin_def Let_def us ui r(1))
  moreover note divmod_unique [OF r(2) u128_val_ge0 r(3)]
  ultimately show "\<exists>q r. quorem128bin u byv (Uint128_LeadingZeros u) (Uint128_LeadingZeros byv) = (q, r)
           \<and> u128_val q = u128_val u div u128_val byv
           \<and> u128_val r = u128_val u mod u128_val byv"
    unfolding zu_def zb_def U_def B_def by blast
qed

subsection \<open>The dispatch of \<open>QuoRem\<close>\<close>

lemma LeadingZeros_dispatch:
  "(if hi byv = 0 then (if hi byv = 0 then bits_LeadingZeros64 (lo byv) else 0) + 64
    else (if hi byv = 0 then 64 else bits_LeadingZeros64 (hi byv)))
   = Uint128_LeadingZeros byv"
  by (simp add: Uint128_LeadingZeros_def)

lemma quorem128by128_correct:
  assumes "u128_val v \<noteq> 0"
  shows "\<exists>q r. quorem128by128 m v (if hi v = 0 then 64 else bits_LeadingZeros64 (hi v))
                  (if hi v = 0 then bits_LeadingZeros64 (lo v) else 0) = ret (q, r)
           \<and> u128_val q = u128_val m div u128_val v
           \<and> u128_val r = u128_val m mod u128_val v"
proof (cases "hi v = 0")
  case True
  then have "lo v \<noteq> 0" using assms by (simp add: u128_val_zero_iff)
  from quorem128by128_small [OF True this, of m 64] True show ?thesis by simp
next
  case False
  from quorem128by128_big [OF False, of m] False show ?thesis by simp
qed

lemma Uint128_QuoRem_correct:
  assumes by0: "u128_val byv \<noteq> 0"
  shows "\<exists>q r. Uint128_QuoRem u byv = ret (q, r)
           \<and> u128_val q = u128_val u div u128_val byv
           \<and> u128_val r = u128_val u mod u128_val byv"
proof -
  define B where "B = u128_val byv"
  define U where "U = u128_val u"
  have Bpos: "0 < B" using by0 u128_val_ge0 [of byv] by (simp add: B_def)
  have Ur: "0 \<le> U" "U < 2 ^ 128" using u128_val_ge0 u128_val_lt by (simp_all add: U_def)
  have nz0: "\<not> (lo byv = 0 \<and> hi byv = 0)" using by0 by (auto simp add: u128_val_zero_iff)
  then have nz: "(lo byv = 0 \<and> hi byv = 0) = False" by simp
  define zb where "zb = Uint128_LeadingZeros byv"
  have zbb: "zb \<le> 127" "2 ^ (127 - zb) \<le> B" "B < 2 ^ (128 - zb)"
    using Uint128_LeadingZeros_bounds [OF by0] by (simp_all add: zb_def B_def)
  show ?thesis
  proof (cases "hi u OR hi byv = 0")
    case True
    then have h: "hi u = 0" "hi byv = 0" by (simp_all add: or_zero_iff)
    then have l: "lo byv \<noteq> 0" using nz0 by simp
    have "Uint128_QuoRem u byv = ret (Uint128 0 (lo u div lo byv), Uint128 0 (lo u mod lo byv))"
      using True l by (simp add: Uint128_QuoRem_def nz)
    moreover have "u128_val (Uint128 0 (lo u div lo byv)) = U div B"
      using h by (simp add: u128_val_def uint_div U_def B_def)
    moreover have "u128_val (Uint128 0 (lo u mod lo byv)) = U mod B"
      using h by (simp add: u128_val_def uint_mod U_def B_def)
    ultimately show ?thesis unfolding U_def B_def by blast
  next
    case slow: False
    show ?thesis
    proof (cases "zb = 127")
      case True
      then have "B = 1" using zbb(2,3) by simp
      moreover have "Uint128_QuoRem u byv = ret (u, Uint128 0 0)"
        using slow True
        by (simp add: Uint128_QuoRem_def nz Let_def LeadingZeros_dispatch zb_def [symmetric])
      ultimately show ?thesis
        unfolding B_def
        by (intro exI [of _ u] exI [of _ "Uint128 0 0"]) (simp add: u128_val_def)
    next
      case n127: False
      define tz where "tz = Uint128_TrailingZeros byv"
      show ?thesis
      proof (cases "zb + tz = 127")
        case True
        have "2 ^ tz dvd B" using Uint128_TrailingZeros_dvd [OF by0] by (simp add: tz_def B_def)
        moreover have "127 - zb = tz" "128 - zb = Suc tz" using True by simp_all
        ultimately have B: "B = 2 ^ tz" using zbb(2,3) by (intro pow2_between) simp_all
        have "tz \<le> 127" using True by simp
        then have "(2::int) ^ tz \<le> 2 ^ 127" by (intro power_increasing) simp_all
        then have "(2 ^ tz - 1) mod 2 ^ 128 = (2::int) ^ tz - 1" by simp
        then have d: "u128_val (Uint128_Dec byv) = 2 ^ tz - 1"
          using B by (simp add: u128_val_Dec B_def)
        have "u128_val (Uint128_And (Uint128_Dec byv) u) = U AND mask tz"
          by (simp add: u128_val_And d mask_eq_exp_minus_1 U_def and.commute)
        also have "\<dots> = U mod 2 ^ tz"
          by (simp flip: take_bit_eq_mask add: take_bit_eq_mod)
        finally have r: "u128_val (Uint128_And (Uint128_Dec byv) u) = U mod B" by (simp add: B)
        have q: "u128_val (Uint128_Rsh u tz) = U div B" by (simp add: u128_val_Rsh B U_def)
        have "Uint128_QuoRem u byv
              = ret (Uint128_Rsh u tz, Uint128_And (Uint128_Dec byv) u)"
          using slow n127 True
          by (simp add: Uint128_QuoRem_def nz Let_def LeadingZeros_dispatch zb_def [symmetric]
              tz_def [symmetric])
        with q r show ?thesis unfolding U_def B_def by blast
      next
        case npow: False
        show ?thesis
        proof (cases "U < B")
          case True
          have "Uint128_QuoRem u byv = ret (Uint128 0 0, u)"
            using slow n127 npow True
            by (simp add: Uint128_QuoRem_def nz Let_def LeadingZeros_dispatch zb_def [symmetric]
                tz_def [symmetric] Uint128_Cmp_val U_def B_def)
          moreover have "U div B = 0" "U mod B = U" using True Ur by simp_all
          ultimately show ?thesis
            unfolding U_def B_def
            by (intro exI [of _ "Uint128 0 0"] exI [of _ u]) (simp add: u128_val_def)
        next
          case nlt: False
          show ?thesis
          proof (cases "U = B")
            case True
            have "Uint128_QuoRem u byv = ret (Uint128 0 1, Uint128 0 0)"
              using slow n127 npow True
              by (simp add: Uint128_QuoRem_def nz Let_def LeadingZeros_dispatch zb_def [symmetric]
                  tz_def [symmetric] Uint128_Cmp_val U_def B_def)
            moreover have "U div B = 1" "U mod B = 0" using True Bpos by simp_all
            ultimately show ?thesis
              unfolding U_def B_def
              by (intro exI [of _ "Uint128 0 1"] exI [of _ "Uint128 0 0"])
                (simp add: u128_val_def)
          next
            case False
            then have gt: "u128_val byv < u128_val u" using nlt by (simp add: U_def B_def)
            define zu where "zu = Uint128_LeadingZeros u"
            have dispatch: "Uint128_QuoRem u byv
              = (if uint_sub zb zu > divAlgoLeading0Spill
                 then quorem128by128 u byv (if hi byv = 0 then 64 else bits_LeadingZeros64 (hi byv))
                        (if hi byv = 0 then bits_LeadingZeros64 (lo byv) else 0)
                 else ret (quorem128bin u byv zu zb))"
              using slow n127 npow nlt False
              by (simp add: Uint128_QuoRem_def nz Let_def LeadingZeros_dispatch zb_def [symmetric]
                  tz_def [symmetric] Uint128_Cmp_val U_def B_def zu_def [symmetric])
            show ?thesis
            proof (cases "uint_sub zb zu > divAlgoLeading0Spill")
              case True
              with dispatch quorem128by128_correct [OF by0, of u] show ?thesis by simp
            next
              case False
              from quorem128bin_correct(1) [OF by0 gt]
              obtain q r where "quorem128bin u byv zu zb = (q, r)"
                "u128_val q = u128_val u div u128_val byv"
                "u128_val r = u128_val u mod u128_val byv"
                unfolding zu_def zb_def by blast
              with dispatch False show ?thesis by auto
            qed
          qed
        qed
      qed
    qed
  qed
qed

lemma Uint128_QuoRem_zero: "Uint128_QuoRem u (Uint128 0 0) = throw DivisionByZero"
  by (simp add: Uint128_QuoRem_def)

lemma Uint128_Quo_QuoRem:
  "Uint128_Quo u byv = bind_r (Uint128_QuoRem u byv) (\<lambda>(q, r). ret q)"
  by (simp add: Uint128_Quo_def Uint128_QuoRem_def Let_def ret_eq throw_def
      quo128bin_def quorem128bin_def split_beta)

lemma Uint128_nonzero_val: "b \<noteq> Uint128 0 0 \<Longrightarrow> u128_val b \<noteq> 0"
  by (cases b) (simp add: u128_val_zero_iff)

text \<open>
  C1: for every \<open>Uint128\<close> dividend \<open>u\<close> and every nonzero divisor \<open>b\<close>,
  \<open>u.QuoRem(b)\<close> returns a pair \<open>(q, r)\<close> with \<open>u = b * q + r\<close> in exact integer
  arithmetic and \<open>r < b\<close>, whichever path the dispatch takes (native 64-bit division,
  divisor 1, power-of-two shift and mask, equal operands, smaller dividend, binary long
  division, or the 128-by-64 and 128-by-128 estimate-and-correct paths); and \<open>Quo\<close> and
  \<open>Rem\<close> return exactly the two components of \<open>QuoRem\<close>.
\<close>

theorem C1_Uint128_QuoRem:
  "b \<noteq> Uint128 0 0 \<longrightarrow>
     (\<exists>q r. Uint128_QuoRem u b = Some (Inr (q, r))
        \<and> u128_val u = u128_val b * u128_val q + u128_val r
        \<and> u128_val r < u128_val b
        \<and> Uint128_Quo u b = Some (Inr q)
        \<and> Uint128_Rem u b = Some (Inr r))"
proof
  assume "b \<noteq> Uint128 0 0"
  then have nz: "u128_val b \<noteq> 0" by (rule Uint128_nonzero_val)
  then have pos: "0 < u128_val b" using u128_val_ge0 [of b] by simp
  from Uint128_QuoRem_correct [OF nz, of u] obtain q r
    where qr: "Uint128_QuoRem u b = ret (q, r)"
      "u128_val q = u128_val u div u128_val b" "u128_val r = u128_val u mod u128_val b"
    by blast
  have "Uint128_QuoRem u b = Some (Inr (q, r))" using qr(1) by (simp add: ret_eq)
  moreover have "u128_val u = u128_val b * u128_val q + u128_val r"
    by (simp add: qr(2,3))
  moreover have "u128_val r < u128_val b" using pos by (simp add: qr(3))
  moreover have "Uint128_Quo u b = Some (Inr q)"
    by (simp add: Uint128_Quo_QuoRem qr(1) ret_eq)
  moreover have "Uint128_Rem u b = Some (Inr r)"
    by (simp add: Uint128_Rem_def qr(1) ret_eq)
  ultimately show "\<exists>q r. Uint128_QuoRem u b = Some (Inr (q, r))
        \<and> u128_val u = u128_val b * u128_val q + u128_val r
        \<and> u128_val r < u128_val b
        \<and> Uint128_Quo u b = Some (Inr q)
        \<and> Uint128_Rem u b = Some (Inr r)"
    by blast
qed

theorem C1_Uint128_QuoRem_witness:
  "Uint128 0 2 \<noteq> Uint128 0 0
   \<and> (\<exists>q r. Uint128_QuoRem (Uint128 0 1) (Uint128 0 2) = Some (Inr (q, r))
        \<and> u128_val (Uint128 0 1) = u128_val (Uint128 0 2) * u128_val q + u128_val r
        \<and> u128_val r < u128_val (Uint128 0 2)
        \<and> Uint128_Quo (Uint128 0 1) (Uint128 0 2) = Some (Inr q)
        \<and> Uint128_Rem (Uint128 0 1) (Uint128 0 2) = Some (Inr r))"
proof -
  have h: "Uint128 0 2 \<noteq> Uint128 0 0" by simp
  from C1_Uint128_QuoRem [of "Uint128 0 2" "Uint128 0 1"] h show ?thesis by blast
qed

section \<open>Signed division\<close>

lemma tdiv_props:
  fixes a b :: int
  assumes "b \<noteq> 0"
  defines "q \<equiv> sgn a * sgn b * (\<bar>a\<bar> div \<bar>b\<bar>)" and "r \<equiv> sgn a * (\<bar>a\<bar> mod \<bar>b\<bar>)"
  shows "a = b * q + r" and "\<bar>r\<bar> < \<bar>b\<bar>" and "r = 0 \<or> sgn r = sgn a"
proof -
  define A B where "A = \<bar>a\<bar>" and "B = \<bar>b\<bar>"
  have B: "0 < B" using assms(1) by (simp add: B_def)
  have R: "0 \<le> A mod B" "A mod B < B" using B by simp_all
  have a: "a = sgn a * A" by (simp add: A_def mult_sgn_abs)
  have b: "b = sgn b * B" by (simp add: B_def mult_sgn_abs)
  have sb: "sgn b * sgn b = 1" using assms(1) by (simp add: sgn_mult_self_eq)
  have "A = B * (A div B) + A mod B" by simp
  then have "sgn a * A = sgn a * (B * (A div B)) + sgn a * (A mod B)"
    by (metis distrib_left)
  also have "sgn a * (B * (A div B)) = (sgn b * B) * (sgn a * sgn b * (A div B))"
  proof -
    have "(sgn b * B) * (sgn a * sgn b * (A div B)) = (sgn b * sgn b) * (sgn a * (B * (A div B)))"
      by (simp only: ac_simps)
    then show ?thesis by (simp only: sb mult_1)
  qed
  finally show "a = b * q + r"
    using a b by (simp only: q_def r_def A_def [symmetric] B_def [symmetric])
  show "\<bar>r\<bar> < \<bar>b\<bar>"
    using R by (cases "a = 0") (simp_all add: r_def abs_mult A_def B_def)
  show "r = 0 \<or> sgn r = sgn a"
    using R(1) by (cases "A mod B = 0") (simp_all add: r_def sgn_mult A_def B_def)
qed

lemma bit63_iff: "bit x 63 \<longleftrightarrow> 2 ^ 63 \<le> uint x" for x :: uint64
proof -
  have t: "take_bit (Suc 63) (uint x) = uint x"
    using uint64_lt [of x] by (simp add: take_bit_int_eq_self)
  define l where "l = take_bit 63 (uint x)"
  have l: "0 \<le> l" "l < 2 ^ 63"
    unfolding l_def by (simp, rule take_bit_int_less_exp)
  have e: "uint x = 2 ^ 63 * of_bool (bit (uint x) 63) + l"
    using t take_bit_Suc_from_most [of 63 "uint x"] by (simp add: l_def)
  have "bit (uint x) 63 \<longleftrightarrow> bit x 63" by (simp add: bit_uint_iff)
  then show ?thesis using e l by (cases "bit x 63") simp_all
qed

lemma signbit_iff: "x AND int128SignBit \<noteq> 0 \<longleftrightarrow> 2 ^ 63 \<le> uint x"
proof -
  have e: "int128SignBit = 2 ^ 63" by (simp add: int128SignBit_def)
  show ?thesis
    unfolding e using and_exp_eq_0_iff_not_bit [of x 63] bit63_iff [of x] by blast
qed

lemma sign_bits: "ihi i AND int128SignBit \<noteq> 0 \<longleftrightarrow> 2 ^ 127 \<le> i128_bits i"
proof -
  obtain l where l: "l = uint (ilo i)" "0 \<le> l" "l < 2 ^ 64" by (rule uint64_cases)
  obtain h where h: "h = uint (ihi i)" "0 \<le> h" "h < 2 ^ 64" by (rule uint64_cases)
  have "2 ^ 63 \<le> h \<longleftrightarrow> 2 ^ 127 \<le> h * 2 ^ 64 + l"
    using l(2,3) h(2,3) by auto
  then show ?thesis by (simp add: signbit_iff i128_bits_def h(1) l(1))
qed

lemma sign_val: "ihi i AND int128SignBit \<noteq> 0 \<longleftrightarrow> i128_val i < 0"
  using i128_bits_range [of i] by (auto simp add: sign_bits i128_val_bits)

lemma LessThan_zero: "Int128_LessThan i zeroInt128 \<longleftrightarrow> ihi i AND int128SignBit \<noteq> 0"
  by (simp add: Int128_LessThan_def zeroInt128_def)

lemma i128_val_range: "- (2 ^ 127) \<le> i128_val i" "i128_val i < 2 ^ 127"
  using i128_bits_range [of i] by (auto simp add: i128_val_bits)

lemma abs_bits:
  "i128_bits (if i128_val i < 0 then Int128_Neg i else i) = \<bar>i128_val i\<bar>"
proof -
  obtain u where u: "u = i128_bits i" "0 \<le> u" "u < 2 ^ 128"
    using i128_bits_range [of i] by simp
  show ?thesis
  proof (cases "i128_val i < 0")
    case True
    then have "2 ^ 127 \<le> u" using u by (auto simp add: i128_val_bits split: if_splits)
    then have "(- u) mod 2 ^ 128 = 2 ^ 128 - u"
      using u(3) by (simp add: zmod_zminus1_eq_if)
    then show ?thesis
      using True \<open>2 ^ 127 \<le> u\<close> u(3)
      by (simp add: i128_bits_Neg i128_val_bits flip: u(1))
  next
    case False
    then show ?thesis using u by (auto simp add: i128_val_bits split: if_splits)
  qed
qed

lemma val_of_small_bits:
  assumes "i128_bits x < 2 ^ 127"
  shows "i128_val x = i128_bits x" and "i128_val (Int128_Neg x) = - i128_bits x"
proof -
  show v: "i128_val x = i128_bits x" using assms by (simp add: i128_val_bits)
  have "x \<noteq> MinInt128" using assms i128_bits_MinInt128 [of x] by auto
  then show "i128_val (Int128_Neg x) = - i128_bits x"
    using v i128_val_Neg [of x] by simp
qed

lemma i128_bits_zero_iff: "i128_bits x = 0 \<longleftrightarrow> x = Int128 0 0"
  using i128_bits_inj [of x "Int128 0 0"] by (auto simp add: i128_bits_def)

lemma i128_val_zero_iff: "i128_val x = 0 \<longleftrightarrow> x = Int128 0 0"
  using i128_bits_range [of x] i128_bits_zero_iff [of x]
  by (auto simp add: i128_val_bits split: if_splits)

lemma resign:
  fixes a b :: int
  assumes b: "b \<noteq> 0" and ar: "- (2 ^ 127) \<le> a" "a < 2 ^ 127"
    and br: "- (2 ^ 127) \<le> b" "b < 2 ^ 127"
    and xq: "i128_bits xq = \<bar>a\<bar> div \<bar>b\<bar>" and xr: "i128_bits xr = \<bar>a\<bar> mod \<bar>b\<bar>"
  defines "q \<equiv> (if (a < 0) \<noteq> (b < 0) then Int128_Neg xq else xq)"
    and "r \<equiv> (if a < 0 then Int128_Neg xr else xr)"
  shows "i128_val r = sgn a * (\<bar>a\<bar> mod \<bar>b\<bar>)"
    and "\<not> (a = - (2 ^ 127) \<and> b = - 1) \<Longrightarrow> i128_val q = sgn a * sgn b * (\<bar>a\<bar> div \<bar>b\<bar>)"
    and "a = - (2 ^ 127) \<and> b = - 1 \<Longrightarrow> q = MinInt128 \<and> r = Int128 0 0"
proof -
  define A B where "A = \<bar>a\<bar>" and "B = \<bar>b\<bar>"
  define X R where "X = A div B" and "R = A mod B"
  have B: "0 < B" "B \<le> 2 ^ 127" using b br by (simp_all add: B_def)
  have A: "0 \<le> A" "A \<le> 2 ^ 127" using ar by (simp_all add: A_def)
  have "R < 2 ^ 127" unfolding R_def using B by (rule int_mod_lt)
  moreover have "0 \<le> R" using B(1) by (simp add: R_def)
  ultimately have R: "0 \<le> R" "R < 2 ^ 127" by blast+
  have X0: "0 \<le> X" using A B by (simp add: X_def pos_imp_zdiv_nonneg_iff)
  have XB: "X * B \<le> A" unfolding X_def using B(1) by (rule int_div_mult_le)
  have "X * 1 \<le> X * B" using X0 B(1) by (intro mult_left_mono) simp_all
  then have XA: "X \<le> A" using XB by simp
  have bq: "i128_bits xq = X" and br': "i128_bits xr = R"
    using xq xr by (simp_all add: X_def R_def A_def B_def)
  have rs: "i128_val xr = R" "i128_val (Int128_Neg xr) = - R"
    using val_of_small_bits [of xr] R(2) by (simp_all add: br')
  show "i128_val r = sgn a * (\<bar>a\<bar> mod \<bar>b\<bar>)"
  proof (cases "a = 0")
    case True
    then have "R = 0" by (simp add: R_def A_def)
    then show ?thesis using True rs by (simp add: r_def)
  next
    case False
    then show ?thesis
      using rs by (cases "a < 0") (simp_all add: r_def R_def A_def B_def)
  qed
  have big: "X = 2 ^ 127 \<Longrightarrow> a = - (2 ^ 127) \<and> B = 1"
  proof -
    assume x: "X = 2 ^ 127"
    then have "A = 2 ^ 127" using XA A(2) by simp
    then have "B \<le> 1" using XB x by simp
    then have "B = 1" using B(1) by simp
    moreover have "a = - (2 ^ 127)" using \<open>A = 2 ^ 127\<close> ar by (simp add: A_def abs_if split: if_splits)
    ultimately show ?thesis by simp
  qed
  show "i128_val q = sgn a * sgn b * (\<bar>a\<bar> div \<bar>b\<bar>)" if n: "\<not> (a = - (2 ^ 127) \<and> b = - 1)"
  proof (cases "X < 2 ^ 127")
    case True
    then have qs: "i128_val xq = X" "i128_val (Int128_Neg xq) = - X"
      using val_of_small_bits [of xq] by (simp_all add: bq)
    show ?thesis
    proof (cases "a = 0")
      case True
      then have "X = 0" by (simp add: X_def A_def)
      then show ?thesis using True qs by (simp add: q_def)
    next
      case False
      then show ?thesis
        using qs b by (cases "a < 0"; cases "b < 0") (simp_all add: q_def X_def A_def B_def)
    qed
  next
    case False
    then have "X = 2 ^ 127" using XA A(2) by simp
    with big have ab: "a = - (2 ^ 127)" "B = 1" by simp_all
    then have b1: "b = 1" using n by (simp add: B_def abs_if split: if_splits)
    have "xq = MinInt128" using \<open>X = 2 ^ 127\<close> bq i128_bits_MinInt128 [of xq] by simp
    then have "q = MinInt128" using ab(1) b1 by (simp add: q_def Int128_Neg_def MinInt128_def)
    moreover have "i128_val MinInt128 = - (2 ^ 127)"
      by (simp add: i128_val_def MinInt128_def)
    ultimately show ?thesis using ab(1) b1 by simp
  qed
  show "q = MinInt128 \<and> r = Int128 0 0" if o: "a = - (2 ^ 127) \<and> b = - 1"
  proof -
    have "X = 2 ^ 127" "R = 0" using o by (simp_all add: X_def R_def A_def B_def)
    then have "xq = MinInt128" "xr = Int128 0 0"
      using bq br' i128_bits_MinInt128 [of xq] i128_bits_zero_iff [of xr] by simp_all
    then show ?thesis using o by (simp add: q_def r_def Int128_Neg_def)
  qed
qed

lemma u128_val_AsUint128: "u128_val (Int128_AsUint128 x) = i128_bits x"
  by (simp add: u128_val_def i128_bits_def Int128_AsUint128_def)

lemma i128_bits_AsInt128: "i128_bits (Uint128_AsInt128 x) = u128_val x"
  by (simp add: u128_val_def i128_bits_def Uint128_AsInt128_def)

lemma Int128_QuoRem_correct:
  assumes "b \<noteq> Int128 0 0"
  shows "\<exists>q r. Int128_QuoRem a b = ret (q, r)
           \<and> i128_val r = sgn (i128_val a) * (\<bar>i128_val a\<bar> mod \<bar>i128_val b\<bar>)
           \<and> (\<not> (i128_val a = - (2 ^ 127) \<and> i128_val b = - 1) \<longrightarrow>
                i128_val q = sgn (i128_val a) * sgn (i128_val b)
                             * (\<bar>i128_val a\<bar> div \<bar>i128_val b\<bar>))
           \<and> (i128_val a = - (2 ^ 127) \<and> i128_val b = - 1 \<longrightarrow>
                q = MinInt128 \<and> r = Int128 0 0)"
proof -
  define A B where "A = i128_val a" and "B = i128_val b"
  have B0: "B \<noteq> 0" using assms by (simp add: B_def i128_val_zero_iff)
  define a' where "a' = (if A < 0 then Int128_Neg a else a)"
  define b' where "b' = (if B < 0 then Int128_Neg b else b)"
  have a'v: "u128_val (Int128_AsUint128 a') = \<bar>A\<bar>"
    using abs_bits [of a] by (simp add: u128_val_AsUint128 a'_def A_def)
  have b'v: "u128_val (Int128_AsUint128 b') = \<bar>B\<bar>"
    using abs_bits [of b] by (simp add: u128_val_AsUint128 b'_def B_def)
  have "u128_val (Int128_AsUint128 b') \<noteq> 0" using B0 by (simp add: b'v)
  from Uint128_QuoRem_correct [OF this, of "Int128_AsUint128 a'"]
  obtain qu ru where u: "Uint128_QuoRem (Int128_AsUint128 a') (Int128_AsUint128 b') = ret (qu, ru)"
      "u128_val qu = \<bar>A\<bar> div \<bar>B\<bar>" "u128_val ru = \<bar>A\<bar> mod \<bar>B\<bar>"
    by (auto simp add: a'v b'v)
  define q where "q = (if (A < 0) \<noteq> (B < 0) then Int128_Neg (Uint128_AsInt128 qu)
                       else Uint128_AsInt128 qu)"
  define r where "r = (if A < 0 then Int128_Neg (Uint128_AsInt128 ru) else Uint128_AsInt128 ru)"
  have e: "Int128_QuoRem a b = ret (q, r)"
    unfolding Int128_QuoRem_def Let_def LessThan_zero sign_val
    using u(1)
    by (simp add: A_def [symmetric] B_def [symmetric] a'_def [symmetric] b'_def [symmetric]
        ret_eq q_def r_def)
  note rs = resign [OF B0 _ _ _ _ _ _, of A "Uint128_AsInt128 qu" "Uint128_AsInt128 ru",
      folded q_def r_def]
  have ra: "- (2 ^ 127) \<le> A" "A < 2 ^ 127" "- (2 ^ 127) \<le> B" "B < 2 ^ 127"
    using i128_val_range by (simp_all add: A_def B_def)
  have bq: "i128_bits (Uint128_AsInt128 qu) = \<bar>A\<bar> div \<bar>B\<bar>"
    and br: "i128_bits (Uint128_AsInt128 ru) = \<bar>A\<bar> mod \<bar>B\<bar>"
    using u(2,3) by (simp_all add: i128_bits_AsInt128)
  show ?thesis
    using e rs(1) [OF ra bq br] rs(2) [OF ra bq br] rs(3) [OF ra bq br]
    unfolding A_def B_def by blast
qed

lemma Int128_QuoRem_zero: "Int128_QuoRem a (Int128 0 0) = throw DivisionByZero"
  by (simp add: Int128_QuoRem_def Let_def Int128_LessThan_def zeroInt128_def
      Int128_AsUint128_def Uint128_QuoRem_def throw_def)

lemma sint64: "sint x = (if 2 ^ 63 \<le> uint x then uint x - 2 ^ 64 else uint x)" for x :: int64
proof -
  have "sint x = signed_take_bit 63 (uint x)" by (simp add: sint_uint)
  also have "\<dots> = take_bit (Suc 63) (uint x) - 2 ^ Suc 63 * of_bool (bit (uint x) 63)"
    by (rule signed_take_bit_eq_take_bit_minus)
  also have "take_bit (Suc 63) (uint x) = uint x"
    using uint64_lt [of x] by (simp add: take_bit_int_eq_self)
  also have "bit (uint x) 63 \<longleftrightarrow> 2 ^ 63 \<le> uint x"
    using bit63_iff [of x] by (simp add: bit_uint_iff)
  finally show ?thesis by simp
qed

lemma abs_sint64:
  "uint (if sint n < 0 then - n else n) = \<bar>sint n\<bar>" for n :: int64
proof -
  obtain u where u: "u = uint n" "0 \<le> u" "u < 2 ^ 64" by (rule uint64_cases)
  show ?thesis
  proof (cases "2 ^ 63 \<le> u")
    case True
    then have "(- u) mod 2 ^ 64 = 2 ^ 64 - u" using u(3) by (simp add: zmod_zminus1_eq_if)
    then show ?thesis using True u(3) by (simp add: sint64 uint_word_ariths flip: u(1))
  next
    case False
    then show ?thesis using u(2) by (simp add: sint64 flip: u(1))
  qed
qed

lemma sint64_zero_iff: "sint n = 0 \<longleftrightarrow> n = 0" for n :: int64
proof -
  obtain u where u: "u = uint n" "0 \<le> u" "u < 2 ^ 64" by (rule uint64_cases)
  have "n = 0 \<longleftrightarrow> u = 0" by (simp add: u(1) uint_0_iff)
  then show ?thesis using u(2,3) by (simp add: sint64 flip: u(1))
qed

lemma sint64_range: "- (2 ^ 63) \<le> sint n" "sint n < 2 ^ 63" for n :: int64
proof -
  obtain u where u: "u = uint n" "0 \<le> u" "u < 2 ^ 64" by (rule uint64_cases)
  show "- (2 ^ 63) \<le> sint n" using u(2,3) by (simp add: sint64 flip: u(1))
  show "sint n < 2 ^ 63" using u(2,3) by (simp add: sint64 flip: u(1))
qed

lemma Div64_ok:
  assumes "h < n"
  shows "Div64 h l n = Inr (word_of_int ((uint h * 2 ^ 64 + uint l) div uint n),
                            word_of_int ((uint h * 2 ^ 64 + uint l) mod uint n))"
proof -
  have "n \<noteq> 0" using assms by (auto simp add: word_less_def)
  moreover have "\<not> n \<le> h" using assms by simp
  ultimately show ?thesis by (simp add: Div64_def bits_Div64_def)
qed

lemma Div64_zero: "Div64 h l 0 = Inl IntegerDivideByZero"
  by (simp add: Div64_def bits_Div64_def)

lemma call_Inr [simp]: "call (Inr x) = Some (Inr x)"
  by (simp add: call_def)

lemma call_Inl [simp]: "call (Inl p) = Some (Inl p)"
  by (simp add: call_def)

lemma i128_bits_lo_only: "0 \<le> x \<Longrightarrow> x < 2 ^ 64 \<Longrightarrow> i128_bits (Int128 0 (word_of_int x)) = x"
  by (simp add: i128_bits_def woi_uint)

lemma div128by64:
  assumes n: "n \<noteq> 0"
  shows "\<exists>q r.
     (if ihi x < n then
        bind_r (call (Div64 (ihi x) (ilo x) n)) (\<lambda>(qlo, rlo). ret (Int128 0 qlo, Int128 0 rlo))
      else
        bind_r (call (Div64 0 (ihi x) n))
          (\<lambda>(qhi, rlo).
             bind_r (call (Div64 rlo (ilo x) n))
               (\<lambda>(qlo, rlo). ret (Int128 qhi qlo, Int128 0 rlo)))) = ret (q, r)
     \<and> i128_bits q = i128_bits x div uint n \<and> i128_bits r = i128_bits x mod uint n"
proof -
  obtain d where d: "d = uint n" "0 \<le> d" "d < 2 ^ 64" by (rule uint64_cases)
  obtain hm where hm: "hm = uint (ihi x)" "0 \<le> hm" "hm < 2 ^ 64" by (rule uint64_cases)
  obtain lm where lm: "lm = uint (ilo x)" "0 \<le> lm" "lm < 2 ^ 64" by (rule uint64_cases)
  have dpos: "0 < d" using n d(2) by (simp add: d(1) order_less_le uint_0_iff)
  have M: "i128_bits x = hm * 2 ^ 64 + lm" by (simp add: i128_bits_def hm(1) lm(1))
  show ?thesis
  proof (cases "ihi x < n")
    case True
    then have hd: "hm < d" by (simp add: word_less_def hm(1) d(1))
    define Qd where "Qd = (hm * 2 ^ 64 + lm) div d"
    define Rd where "Rd = (hm * 2 ^ 64 + lm) mod d"
    have "hm * 2 ^ 64 + lm < (hm + 1) * 2 ^ 64" using lm(3) by (simp add: algebra_simps)
    also have "\<dots> \<le> d * 2 ^ 64" using hd by (intro mult_right_mono) simp_all
    finally have "hm * 2 ^ 64 + lm < 2 ^ 64 * d" by (simp add: mult.commute)
    then have Q: "0 \<le> Qd" "Qd < 2 ^ 64"
      using dpos hm(2) lm(2) by (simp_all add: Qd_def pos_imp_zdiv_nonneg_iff int_div_less)
    have R: "0 \<le> Rd" "Rd < 2 ^ 64"
      using dpos d(3) int_mod_lt [OF dpos, of "2 ^ 64"] by (simp_all add: Rd_def)
    have "Div64 (ihi x) (ilo x) n = Inr (word_of_int Qd, word_of_int Rd)"
      using Div64_ok [OF True, of "ilo x"] by (simp only: Qd_def Rd_def hm(1) lm(1) d(1))
    then show ?thesis
      using True i128_bits_lo_only [OF Q] i128_bits_lo_only [OF R]
      by (intro exI [of _ "Int128 0 (word_of_int Qd)"] exI [of _ "Int128 0 (word_of_int Rd)"])
        (simp add: M Qd_def Rd_def ret_eq flip: d(1))
  next
    case False
    define hq hr where "hq = hm div d" and "hr = hm mod d"
    have h: "hm = d * hq + hr" by (simp add: hq_def hr_def)
    have hr: "0 \<le> hr" "hr < d" "hr < 2 ^ 64"
      using dpos d(3) int_mod_lt [OF dpos, of "2 ^ 64"] by (simp_all add: hr_def)
    have hq: "0 \<le> hq" "hq < 2 ^ 64"
    proof -
      show "0 \<le> hq" using hm(2) dpos by (simp add: hq_def pos_imp_zdiv_nonneg_iff)
      have "(2 :: int) ^ 64 * 1 \<le> 2 ^ 64 * d" using dpos by (intro mult_left_mono) simp_all
      then have "hm < 2 ^ 64 * d" using hm(3) by simp
      with dpos show "hq < 2 ^ 64" unfolding hq_def by (rule int_div_less)
    qed
    define X where "X = hr * 2 ^ 64 + lm"
    define Qd where "Qd = X div d"
    define Rd where "Rd = X mod d"
    have X0: "0 \<le> X" using hr(1) lm(2) by (simp add: X_def)
    have "X < (hr + 1) * 2 ^ 64" using lm(3) by (simp add: X_def algebra_simps)
    also have "\<dots> \<le> d * 2 ^ 64" using hr(2) by (intro mult_right_mono) simp_all
    finally have "X < 2 ^ 64 * d" by (simp add: mult.commute)
    then have Q: "0 \<le> Qd" "Qd < 2 ^ 64"
      using dpos X0 by (simp_all add: Qd_def pos_imp_zdiv_nonneg_iff int_div_less)
    have R: "0 \<le> Rd" "Rd < 2 ^ 64" "Rd < d"
      using dpos d(3) int_mod_lt [OF dpos, of "2 ^ 64"] by (simp_all add: Rd_def)
    have z: "(0 :: uint64) < n" using n by (simp add: word_gt_0)
    have e1: "Div64 0 (ihi x) n = Inr (word_of_int hq, word_of_int hr)"
      using Div64_ok [OF z, of "ihi x"] by (simp add: hq_def hr_def hm(1) d(1))
    have lt: "(word_of_int hr :: uint64) < n"
      using hr by (simp add: word_less_def woi_uint d(1) [symmetric])
    have e2: "Div64 (word_of_int hr) (ilo x) n = Inr (word_of_int Qd, word_of_int Rd)"
      using Div64_ok [OF lt, of "ilo x"] hr
      by (simp add: woi_uint Qd_def Rd_def X_def lm(1) d(1))
    have qv: "i128_bits (Int128 (word_of_int hq) (word_of_int Qd)) = hq * 2 ^ 64 + Qd"
      using Q hq by (simp add: i128_bits_def woi_uint)
    have x: "X = d * Qd + Rd" by (simp add: Qd_def Rd_def)
    have "hr * 2 ^ 64 + lm = d * Qd + Rd" using x by (simp add: X_def)
    then have eq: "hm * 2 ^ 64 + lm = d * (hq * 2 ^ 64 + Qd) + Rd"
      by (simp add: h algebra_simps)
    have "(hm * 2 ^ 64 + lm) div d = hq * 2 ^ 64 + Qd"
      using eq R(1,3) by (rule int_div_pos_eq)
    moreover have "(hm * 2 ^ 64 + lm) mod d = Rd"
      using eq R(1,3) by (rule int_mod_pos_eq)
    ultimately show ?thesis
      using False e1 e2 qv i128_bits_lo_only [OF R(1,2)]
      by (intro exI [of _ "Int128 (word_of_int hq) (word_of_int Qd)"]
          exI [of _ "Int128 0 (word_of_int Rd)"])
        (simp add: M ret_eq flip: d(1))
  qed
qed

lemma Int128_QuoRem64_correct:
  assumes "n \<noteq> 0"
  shows "\<exists>q r. Int128_QuoRem64 a n = ret (q, r)
           \<and> i128_val r = sgn (i128_val a) * (\<bar>i128_val a\<bar> mod \<bar>sint n\<bar>)
           \<and> (\<not> (i128_val a = - (2 ^ 127) \<and> sint n = - 1) \<longrightarrow>
                i128_val q = sgn (i128_val a) * sgn (sint n)
                             * (\<bar>i128_val a\<bar> div \<bar>sint n\<bar>))
           \<and> (i128_val a = - (2 ^ 127) \<and> sint n = - 1 \<longrightarrow>
                q = MinInt128 \<and> r = Int128 0 0)"
proof -
  define A B where "A = i128_val a" and "B = sint n"
  have B0: "B \<noteq> 0" using assms by (simp add: B_def sint64_zero_iff)
  define a' where "a' = (if A < 0 then Int128_Neg a else a)"
  define n' where "n' = (if B < 0 then - n else n)"
  have a'v: "i128_bits a' = \<bar>A\<bar>"
    using abs_bits [of a] by (simp add: a'_def A_def)
  have n'v: "uint n' = \<bar>B\<bar>"
    using abs_sint64 [of n] by (simp add: n'_def B_def)
  have "n' \<noteq> 0" using B0 n'v by auto
  from div128by64 [OF this, of a']
  obtain qu ru where u: "(if ihi a' < n' then
        bind_r (call (Div64 (ihi a') (ilo a') n')) (\<lambda>(qlo, rlo). ret (Int128 0 qlo, Int128 0 rlo))
      else
        bind_r (call (Div64 0 (ihi a') n'))
          (\<lambda>(qhi, rlo).
             bind_r (call (Div64 rlo (ilo a') n'))
               (\<lambda>(qlo, rlo). ret (Int128 qhi qlo, Int128 0 rlo)))) = ret (qu, ru)"
      "i128_bits qu = \<bar>A\<bar> div \<bar>B\<bar>" "i128_bits ru = \<bar>A\<bar> mod \<bar>B\<bar>"
    unfolding a'v n'v by blast
  define q where "q = (if (A < 0) \<noteq> (B < 0) then Int128_Neg qu else qu)"
  define r where "r = (if A < 0 then Int128_Neg ru else ru)"
  have e: "Int128_QuoRem64 a n = ret (q, r)"
    unfolding Int128_QuoRem64_def Let_def sign_val
    unfolding A_def [symmetric] B_def [symmetric] a'_def [symmetric] n'_def [symmetric] u(1)
    by (simp add: q_def r_def ret_def)
  note rs = resign [OF B0 _ _ _ _ _ _, of A qu ru, folded q_def r_def]
  have ra: "- (2 ^ 127) \<le> A" "A < 2 ^ 127" "- (2 ^ 127) \<le> B" "B < 2 ^ 127"
    using i128_val_range [of a] sint64_range [of n] by (simp_all add: A_def B_def)
  show ?thesis
    using e rs(1) [OF ra u(2,3)] rs(2) [OF ra u(2,3)] rs(3) [OF ra u(2,3)]
    unfolding A_def B_def by blast
qed

lemma Int128_QuoRem64_zero: "Int128_QuoRem64 a 0 = throw IntegerDivideByZero"
  by (simp add: Int128_QuoRem64_def Let_def Div64_zero throw_def bind_r_def)

lemma bits_Div64_zero: "bits_Div64 h l 0 = Inl IntegerDivideByZero"
  by (simp add: bits_Div64_def)

lemma bits_Div64_ok:
  assumes "h < n"
  shows "bits_Div64 h l n = Inr (word_of_int ((uint h * 2 ^ 64 + uint l) div uint n),
                                 word_of_int ((uint h * 2 ^ 64 + uint l) mod uint n))"
  using Div64_ok [OF assms, of l] by (simp add: Div64_def)

lemma rem_word_less:
  fixes n :: uint64
  assumes "n \<noteq> 0"
  shows "word_of_int (x mod uint n) < n"
proof -
  obtain d where d: "d = uint n" "0 \<le> d" "d < 2 ^ 64" by (rule uint64_cases)
  have dpos: "0 < d" using assms d(2) by (simp add: d(1) order_less_le uint_0_iff)
  have r: "0 \<le> x mod d" "x mod d < d" "x mod d < 2 ^ 64"
    using dpos d(3) int_mod_lt [OF dpos, of "2 ^ 64"] by simp_all
  show ?thesis using r by (simp add: word_less_def woi_uint flip: d(1))
qed

lemma div_chain_returns:
  fixes n :: uint64
  assumes "n \<noteq> 0"
  shows "\<exists>qh r1 ql r2. bits_Div64 0 h n = Inr (qh, r1) \<and> bits_Div64 r1 l n = Inr (ql, r2)"
proof -
  have z: "(0 :: uint64) < n" using assms by (simp add: word_gt_0)
  define r1 :: uint64 where "r1 = word_of_int ((uint (0 :: uint64) * 2 ^ 64 + uint h) mod uint n)"
  have "r1 < n" unfolding r1_def using assms by (rule rem_word_less)
  from bits_Div64_ok [OF z, of h] bits_Div64_ok [OF this, of l] show ?thesis
    unfolding r1_def by blast
qed

lemma Uint128_Quo_zero: "Uint128_Quo u (Uint128 0 0) = throw DivisionByZero"
  by (simp add: Uint128_Quo_def)

lemma Uint128_Rem_zero: "Uint128_Rem u (Uint128 0 0) = throw DivisionByZero"
  by (simp add: Uint128_Rem_def Uint128_QuoRem_zero throw_def)

lemma Uint128_Quo_returns:
  assumes "b \<noteq> Uint128 0 0"
  shows "\<exists>q. Uint128_Quo u b = ret q"
proof -
  from Uint128_QuoRem_correct [OF Uint128_nonzero_val [OF assms], of u]
  obtain q r where "Uint128_QuoRem u b = ret (q, r)" by blast
  then show ?thesis by (simp add: Uint128_Quo_QuoRem ret_def)
qed

lemma Uint128_Rem_returns:
  assumes "b \<noteq> Uint128 0 0"
  shows "\<exists>r. Uint128_Rem u b = ret r"
proof -
  from Uint128_QuoRem_correct [OF Uint128_nonzero_val [OF assms], of u]
  obtain q r where "Uint128_QuoRem u b = ret (q, r)" by blast
  then show ?thesis by (simp add: Uint128_Rem_def ret_def)
qed

lemma Uint128_Quo64_zero: "Uint128_Quo64 u 0 = throw IntegerDivideByZero"
  by (simp add: Uint128_Quo64_def)

lemma Uint128_QuoRem64_zero: "Uint128_QuoRem64 u 0 = throw IntegerDivideByZero"
  by (simp add: Uint128_QuoRem64_def bits_Div64_zero throw_def)

lemma Uint128_Rem64_zero: "Uint128_Rem64 u 0 = throw IntegerDivideByZero"
  by (simp add: Uint128_Rem64_def bits_Div64_zero throw_def)

lemma Uint128_Quo64_returns:
  assumes "n \<noteq> 0"
  shows "\<exists>q. Uint128_Quo64 u n = ret q"
proof (cases "hi u < n")
  case True
  then show ?thesis by (simp add: Uint128_Quo64_def bits_Div64_ok ret_def)
next
  case False
  have "hi u mod n < n" using assms by (simp add: word_mod_less_divisor word_gt_0)
  then show ?thesis using False assms by (simp add: Uint128_Quo64_def bits_Div64_ok ret_def)
qed

lemma Uint128_QuoRem64_returns:
  assumes "n \<noteq> 0"
  shows "\<exists>q r. Uint128_QuoRem64 u n = ret (q, r)"
proof (cases "hi u < n")
  case True
  then show ?thesis by (simp add: Uint128_QuoRem64_def bits_Div64_ok ret_def)
next
  case False
  from div_chain_returns [OF assms, of "hi u" "lo u"] obtain qh r1 ql r2
    where "bits_Div64 0 (hi u) n = Inr (qh, r1)" "bits_Div64 r1 (lo u) n = Inr (ql, r2)"
    by blast
  then show ?thesis using False by (simp add: Uint128_QuoRem64_def ret_def)
qed

lemma Uint128_Rem64_returns:
  assumes "n \<noteq> 0"
  shows "\<exists>r. Uint128_Rem64 u n = ret r"
proof (cases "hi u < n")
  case True
  then show ?thesis by (simp add: Uint128_Rem64_def bits_Div64_ok ret_def)
next
  case False
  from div_chain_returns [OF assms, of "hi u" "lo u"] obtain qh r1 ql r2
    where "bits_Div64 0 (hi u) n = Inr (qh, r1)" "bits_Div64 r1 (lo u) n = Inr (ql, r2)"
    by blast
  then show ?thesis using False by (simp add: Uint128_Rem64_def ret_def)
qed

lemma bind_r_assoc: "bind_r (bind_r m f) g = bind_r m (\<lambda>x. bind_r (f x) g)"
  by (simp add: bind_r_def split: option.splits sum.splits)

lemma bind_r_if: "bind_r (if c then a else b) f = (if c then bind_r a f else bind_r b f)"
  by simp

lemma Int128_Quo_QuoRem:
  "Int128_Quo a b = bind_r (Int128_QuoRem a b) (\<lambda>(q, r). ret q)"
  by (simp add: Int128_Quo_def Int128_QuoRem_def Uint128_Quo_QuoRem Let_def bind_r_assoc
      split_def ret_def)

lemma Int128_Quo64_QuoRem64:
  "Int128_Quo64 a n = bind_r (Int128_QuoRem64 a n) (\<lambda>(q, r). ret q)"
  unfolding Int128_Quo64_def Int128_QuoRem64_def Let_def
  by (simp only: bind_r_assoc bind_r_if split_def ret_def bind_r_ret fst_conv snd_conv)

lemma Int128_Rem64_QuoRem64:
  "Int128_Rem64 a n = bind_r (Int128_QuoRem64 a n) (\<lambda>(q, r). ret r)"
  unfolding Int128_Rem64_def Int128_QuoRem64_def Let_def
  by (simp only: bind_r_assoc bind_r_if split_def ret_def bind_r_ret fst_conv snd_conv)

lemma sint64_m1_iff: "sint n = - 1 \<longleftrightarrow> n = - 1" for n :: int64
proof
  assume h: "sint n = - 1"
  obtain u where u: "u = uint n" "0 \<le> u" "u < 2 ^ 64" by (rule uint64_cases)
  from h have "u = 2 ^ 64 - 1" using u(2,3) by (simp add: sint64 flip: u(1) split: if_splits)
  then have "(word_of_int (uint n) :: int64) = word_of_int (2 ^ 64 - 1)" by (simp only: u(1))
  then show "n = - 1" by simp
qed simp

lemma i128_val_inj: "i128_val a = i128_val b \<Longrightarrow> a = b"
proof (rule i128_bits_inj)
  assume h: "i128_val a = i128_val b"
  obtain u where u: "u = i128_bits a" "0 \<le> u" "u < 2 ^ 128"
    using i128_bits_range [of a] by simp
  obtain v where v: "v = i128_bits b" "0 \<le> v" "v < 2 ^ 128"
    using i128_bits_range [of b] by simp
  from h have "(if u < 2 ^ 127 then u else u - 2 ^ 128) = (if v < 2 ^ 127 then v else v - 2 ^ 128)"
    by (simp only: i128_val_bits u(1) v(1))
  then have "u = v" using u(2,3) v(2,3) by (simp split: if_splits)
  then show "i128_bits a = i128_bits b" by (simp only: u(1) v(1))
qed

lemma i128_val_MinInt128: "i128_val MinInt128 = - (2 ^ 127)"
  by (simp add: i128_val_def MinInt128_def Let_def)

lemma i128_val_minusOne: "i128_val minusOne = - 1"
  by (simp add: i128_val_def minusOne_def Let_def)

lemma MinInt128_iff: "i128_val a = - (2 ^ 127) \<longleftrightarrow> a = MinInt128"
  using i128_val_inj [of a MinInt128] by (auto simp add: i128_val_MinInt128)

lemma minusOne_iff: "i128_val b = - 1 \<longleftrightarrow> b = minusOne"
  using i128_val_inj [of b minusOne] by (auto simp add: i128_val_minusOne)

lemma tdiv_result:
  fixes A B Q R :: int
  assumes "B \<noteq> 0"
    and "R = sgn A * (\<bar>A\<bar> mod \<bar>B\<bar>)"
    and "Q = sgn A * sgn B * (\<bar>A\<bar> div \<bar>B\<bar>)"
  shows "A = B * Q + R" and "\<bar>R\<bar> < \<bar>B\<bar>" and "R = 0 \<or> sgn R = sgn A"
  using tdiv_props [OF assms(1), of A] unfolding assms(2,3) by blast+

lemma tdiv_rem:
  fixes A B R :: int
  assumes "B \<noteq> 0" and "R = sgn A * (\<bar>A\<bar> mod \<bar>B\<bar>)"
  shows "\<bar>R\<bar> < \<bar>B\<bar>" and "R = 0 \<or> sgn R = sgn A"
  using tdiv_props(2,3) [OF assms(1), of A] unfolding assms(2) by blast+

lemma Int128_Quo_zero: "Int128_Quo a (Int128 0 0) = throw DivisionByZero"
  by (simp add: Int128_Quo_QuoRem Int128_QuoRem_zero throw_def)

lemma Int128_Rem_zero: "Int128_Rem a (Int128 0 0) = throw DivisionByZero"
  by (simp add: Int128_Rem_def Int128_QuoRem_zero throw_def)

lemma Int128_Quo64_zero: "Int128_Quo64 a 0 = throw IntegerDivideByZero"
  by (simp add: Int128_Quo64_QuoRem64 Int128_QuoRem64_zero throw_def)

lemma Int128_Rem64_zero: "Int128_Rem64 a 0 = throw IntegerDivideByZero"
  by (simp add: Int128_Rem64_QuoRem64 Int128_QuoRem64_zero throw_def)

lemma Int128_QuoRem_returns:
  assumes "b \<noteq> Int128 0 0"
  shows "\<exists>q r. Int128_QuoRem a b = Some (Inr (q, r)) \<and> Int128_Quo a b = Some (Inr q)
           \<and> Int128_Rem a b = Some (Inr r)"
proof -
  from Int128_QuoRem_correct [OF assms, of a]
  obtain q r where qr: "Int128_QuoRem a b = ret (q, r)" by blast
  then have "Int128_QuoRem a b = Some (Inr (q, r))" "Int128_Quo a b = Some (Inr q)"
    "Int128_Rem a b = Some (Inr r)"
    by (simp_all add: Int128_Quo_QuoRem Int128_Rem_def ret_def)
  then show ?thesis by blast
qed

lemma Int128_QuoRem64_returns:
  assumes "n \<noteq> 0"
  shows "\<exists>q r. Int128_QuoRem64 a n = Some (Inr (q, r)) \<and> Int128_Quo64 a n = Some (Inr q)
           \<and> Int128_Rem64 a n = Some (Inr r)"
proof -
  from Int128_QuoRem64_correct [OF assms, of a]
  obtain q r where qr: "Int128_QuoRem64 a n = ret (q, r)" by blast
  then have "Int128_QuoRem64 a n = Some (Inr (q, r))" "Int128_Quo64 a n = Some (Inr q)"
    "Int128_Rem64 a n = Some (Inr r)"
    by (simp_all add: Int128_Quo64_QuoRem64 Int128_Rem64_QuoRem64 ret_def)
  then show ?thesis by blast
qed

text \<open>
  C2: for every \<open>Int128\<close> dividend \<open>a\<close> and every nonzero \<open>Int128\<close> divisor \<open>b\<close>,
  \<open>a.QuoRem(b)\<close> returns a pair \<open>(q, r)\<close> whose remainder is smaller in magnitude than
  \<open>b\<close> and is zero or has the sign of \<open>a\<close>; when \<open>a = MinInt128\<close> and \<open>b = -1\<close> the
  quotient wraps to \<open>MinInt128\<close> with remainder zero, and in every other case
  \<open>a = b * q + r\<close> in exact integer arithmetic with \<open>q\<close> the quotient truncated toward
  zero.  \<open>QuoRem64\<close> satisfies the same equations for every nonzero \<open>int64\<close> divisor,
  \<open>MinInt64\<close> included.
\<close>

theorem C2_Int128_QuoRem:
  "(b \<noteq> Int128 0 0 \<longrightarrow>
     (\<exists>q r. Int128_QuoRem a b = Some (Inr (q, r))
        \<and> (if a = MinInt128 \<and> b = minusOne then q = MinInt128 \<and> r = Int128 0 0
           else i128_val a = i128_val b * i128_val q + i128_val r
              \<and> i128_val q = sgn (i128_val a) * sgn (i128_val b)
                              * (\<bar>i128_val a\<bar> div \<bar>i128_val b\<bar>))
        \<and> \<bar>i128_val r\<bar> < \<bar>i128_val b\<bar>
        \<and> (i128_val r = 0 \<or> sgn (i128_val r) = sgn (i128_val a))))
   \<and> (n \<noteq> 0 \<longrightarrow>
     (\<exists>q r. Int128_QuoRem64 a n = Some (Inr (q, r))
        \<and> (if a = MinInt128 \<and> n = - 1 then q = MinInt128 \<and> r = Int128 0 0
           else i128_val a = sint n * i128_val q + i128_val r
              \<and> i128_val q = sgn (i128_val a) * sgn (sint n)
                              * (\<bar>i128_val a\<bar> div \<bar>sint n\<bar>))
        \<and> \<bar>i128_val r\<bar> < \<bar>sint n\<bar>
        \<and> (i128_val r = 0 \<or> sgn (i128_val r) = sgn (i128_val a))))"
proof (intro conjI impI)
  assume b: "b \<noteq> Int128 0 0"
  then have B0: "i128_val b \<noteq> 0" by (simp add: i128_val_zero_iff)
  from Int128_QuoRem_correct [OF b, of a] obtain q r
    where e: "Int128_QuoRem a b = ret (q, r)"
      and r: "i128_val r = sgn (i128_val a) * (\<bar>i128_val a\<bar> mod \<bar>i128_val b\<bar>)"
      and q: "\<not> (i128_val a = - (2 ^ 127) \<and> i128_val b = - 1) \<Longrightarrow>
                i128_val q = sgn (i128_val a) * sgn (i128_val b)
                             * (\<bar>i128_val a\<bar> div \<bar>i128_val b\<bar>)"
      and o: "i128_val a = - (2 ^ 127) \<and> i128_val b = - 1 \<Longrightarrow> q = MinInt128 \<and> r = Int128 0 0"
    by blast
  have 1: "Int128_QuoRem a b = Some (Inr (q, r))" using e by (simp add: ret_def)
  have 2: "if a = MinInt128 \<and> b = minusOne then q = MinInt128 \<and> r = Int128 0 0
           else i128_val a = i128_val b * i128_val q + i128_val r
              \<and> i128_val q = sgn (i128_val a) * sgn (i128_val b)
                              * (\<bar>i128_val a\<bar> div \<bar>i128_val b\<bar>)"
  proof (cases "a = MinInt128 \<and> b = minusOne")
    case True
    then show ?thesis using o by (simp add: i128_val_MinInt128 i128_val_minusOne)
  next
    case False
    then have "\<not> (i128_val a = - (2 ^ 127) \<and> i128_val b = - 1)"
      by (simp only: MinInt128_iff minusOne_iff not_False_eq_True)
    from q [OF this] tdiv_result(1) [OF B0 r this [THEN q]] show ?thesis
      unfolding if_not_P [OF False] by (rule conjI [rotated])
  qed
  from 1 2 tdiv_rem [OF B0 r]
  show "\<exists>q r. Int128_QuoRem a b = Some (Inr (q, r))
        \<and> (if a = MinInt128 \<and> b = minusOne then q = MinInt128 \<and> r = Int128 0 0
           else i128_val a = i128_val b * i128_val q + i128_val r
              \<and> i128_val q = sgn (i128_val a) * sgn (i128_val b)
                              * (\<bar>i128_val a\<bar> div \<bar>i128_val b\<bar>))
        \<and> \<bar>i128_val r\<bar> < \<bar>i128_val b\<bar>
        \<and> (i128_val r = 0 \<or> sgn (i128_val r) = sgn (i128_val a))"
    by blast
next
  assume n: "n \<noteq> 0"
  then have B0: "sint n \<noteq> 0" by (simp add: sint64_zero_iff)
  from Int128_QuoRem64_correct [OF n, of a] obtain q r
    where e: "Int128_QuoRem64 a n = ret (q, r)"
      and r: "i128_val r = sgn (i128_val a) * (\<bar>i128_val a\<bar> mod \<bar>sint n\<bar>)"
      and q: "\<not> (i128_val a = - (2 ^ 127) \<and> sint n = - 1) \<Longrightarrow>
                i128_val q = sgn (i128_val a) * sgn (sint n)
                             * (\<bar>i128_val a\<bar> div \<bar>sint n\<bar>)"
      and o: "i128_val a = - (2 ^ 127) \<and> sint n = - 1 \<Longrightarrow> q = MinInt128 \<and> r = Int128 0 0"
    by blast
  have 1: "Int128_QuoRem64 a n = Some (Inr (q, r))" using e by (simp add: ret_def)
  have 2: "if a = MinInt128 \<and> n = - 1 then q = MinInt128 \<and> r = Int128 0 0
           else i128_val a = sint n * i128_val q + i128_val r
              \<and> i128_val q = sgn (i128_val a) * sgn (sint n)
                              * (\<bar>i128_val a\<bar> div \<bar>sint n\<bar>)"
  proof (cases "a = MinInt128 \<and> n = - 1")
    case True
    then show ?thesis using o by (simp add: i128_val_MinInt128)
  next
    case False
    then have "\<not> (i128_val a = - (2 ^ 127) \<and> sint n = - 1)"
      by (simp only: MinInt128_iff sint64_m1_iff not_False_eq_True)
    from q [OF this] tdiv_result(1) [OF B0 r this [THEN q]] show ?thesis
      unfolding if_not_P [OF False] by (rule conjI [rotated])
  qed
  from 1 2 tdiv_rem [OF B0 r]
  show "\<exists>q r. Int128_QuoRem64 a n = Some (Inr (q, r))
        \<and> (if a = MinInt128 \<and> n = - 1 then q = MinInt128 \<and> r = Int128 0 0
           else i128_val a = sint n * i128_val q + i128_val r
              \<and> i128_val q = sgn (i128_val a) * sgn (sint n)
                              * (\<bar>i128_val a\<bar> div \<bar>sint n\<bar>))
        \<and> \<bar>i128_val r\<bar> < \<bar>sint n\<bar>
        \<and> (i128_val r = 0 \<or> sgn (i128_val r) = sgn (i128_val a))"
    by blast
qed

theorem C2_Int128_QuoRem_witness:
  "Int128 0xFFFFFFFFFFFFFFFF 0xFFFFFFFFFFFFFFFE \<noteq> Int128 0 0 \<and> (- 2 :: int64) \<noteq> 0
   \<and> (\<exists>q r. Int128_QuoRem (Int128 0 7) (Int128 0xFFFFFFFFFFFFFFFF 0xFFFFFFFFFFFFFFFE)
                = Some (Inr (q, r)) \<and> i128_val q = - 3 \<and> i128_val r = 1)
   \<and> (\<exists>q r. Int128_QuoRem64 (Int128 0 7) (- 2) = Some (Inr (q, r))
          \<and> i128_val q = - 3 \<and> i128_val r = 1)"
proof -
  have a: "i128_val (Int128 0 7) = 7" by (simp add: i128_val_def Let_def)
  have b: "i128_val (Int128 0xFFFFFFFFFFFFFFFF 0xFFFFFFFFFFFFFFFE) = - 2"
    by (simp add: i128_val_def Let_def)
  have n: "sint (- 2 :: int64) = - 2" by simp
  have ne: "\<not> (Int128 0 7 = MinInt128
                 \<and> Int128 0xFFFFFFFFFFFFFFFF 0xFFFFFFFFFFFFFFFE = minusOne)"
    "\<not> (Int128 0 7 = MinInt128 \<and> (- 2 :: int64) = - 1)"
    by (simp_all add: MinInt128_def)
  have h: "Int128 0xFFFFFFFFFFFFFFFF 0xFFFFFFFFFFFFFFFE \<noteq> Int128 0 0" "(- 2 :: int64) \<noteq> 0"
    by simp_all
  have d: "sgn (7 :: int) * sgn (- 2 :: int) * (\<bar>7\<bar> div \<bar>- 2\<bar>) = - 3" by simp
  from C2_Int128_QuoRem [of "Int128 0xFFFFFFFFFFFFFFFF 0xFFFFFFFFFFFFFFFE" "Int128 0 7" "- 2"] h
  obtain q r q' r' where
    1: "Int128_QuoRem (Int128 0 7) (Int128 0xFFFFFFFFFFFFFFFF 0xFFFFFFFFFFFFFFFE)
          = Some (Inr (q, r))" "i128_val q = - 3" "7 = - 2 * i128_val q + i128_val r"
    and 2: "Int128_QuoRem64 (Int128 0 7) (- 2) = Some (Inr (q', r'))" "i128_val q' = - 3"
      "7 = - 2 * i128_val q' + i128_val r'"
    unfolding a b n if_not_P [OF ne(1)] if_not_P [OF ne(2)] d by blast
  from 1 have "i128_val r = 1" by simp
  moreover from 2 have "i128_val r' = 1" by simp
  ultimately show ?thesis using h 1(1,2) 2(1,2) by blast
qed

text \<open>
  C3: on both engines \<open>Quo\<close>, \<open>Rem\<close>, \<open>QuoRem\<close>, \<open>Quo64\<close>, \<open>Rem64\<close> and \<open>QuoRem64\<close>
  panic on a zero divisor (the 128-bit-divisor operations with the explicit division-by-zero
  panic, the 64-bit-divisor ones with the run-time integer-divide panic), and on a nonzero
  divisor each of them returns a value: it neither panics nor loops.
\<close>

theorem C3_zero_divisor_panics:
  "Uint128_Quo u (Uint128 0 0) = Some (Inl DivisionByZero)
   \<and> Uint128_Rem u (Uint128 0 0) = Some (Inl DivisionByZero)
   \<and> Uint128_QuoRem u (Uint128 0 0) = Some (Inl DivisionByZero)
   \<and> Uint128_Quo64 u 0 = Some (Inl IntegerDivideByZero)
   \<and> Uint128_Rem64 u 0 = Some (Inl IntegerDivideByZero)
   \<and> Uint128_QuoRem64 u 0 = Some (Inl IntegerDivideByZero)
   \<and> Int128_Quo a (Int128 0 0) = Some (Inl DivisionByZero)
   \<and> Int128_Rem a (Int128 0 0) = Some (Inl DivisionByZero)
   \<and> Int128_QuoRem a (Int128 0 0) = Some (Inl DivisionByZero)
   \<and> Int128_Quo64 a 0 = Some (Inl IntegerDivideByZero)
   \<and> Int128_Rem64 a 0 = Some (Inl IntegerDivideByZero)
   \<and> Int128_QuoRem64 a 0 = Some (Inl IntegerDivideByZero)
   \<and> (b \<noteq> Uint128 0 0 \<longrightarrow>
        (\<exists>q r. Uint128_QuoRem u b = Some (Inr (q, r)))
        \<and> (\<exists>q. Uint128_Quo u b = Some (Inr q)) \<and> (\<exists>r. Uint128_Rem u b = Some (Inr r)))
   \<and> (n \<noteq> 0 \<longrightarrow>
        (\<exists>q r. Uint128_QuoRem64 u n = Some (Inr (q, r)))
        \<and> (\<exists>q. Uint128_Quo64 u n = Some (Inr q)) \<and> (\<exists>r. Uint128_Rem64 u n = Some (Inr r)))
   \<and> (c \<noteq> Int128 0 0 \<longrightarrow>
        (\<exists>q r. Int128_QuoRem a c = Some (Inr (q, r)))
        \<and> (\<exists>q. Int128_Quo a c = Some (Inr q)) \<and> (\<exists>r. Int128_Rem a c = Some (Inr r)))
   \<and> (m \<noteq> 0 \<longrightarrow>
        (\<exists>q r. Int128_QuoRem64 a m = Some (Inr (q, r)))
        \<and> (\<exists>q. Int128_Quo64 a m = Some (Inr q)) \<and> (\<exists>r. Int128_Rem64 a m = Some (Inr r)))"
proof -
  have z: "Uint128_Quo u (Uint128 0 0) = Some (Inl DivisionByZero)"
    "Uint128_Rem u (Uint128 0 0) = Some (Inl DivisionByZero)"
    "Uint128_QuoRem u (Uint128 0 0) = Some (Inl DivisionByZero)"
    "Uint128_Quo64 u 0 = Some (Inl IntegerDivideByZero)"
    "Uint128_Rem64 u 0 = Some (Inl IntegerDivideByZero)"
    "Uint128_QuoRem64 u 0 = Some (Inl IntegerDivideByZero)"
    "Int128_Quo a (Int128 0 0) = Some (Inl DivisionByZero)"
    "Int128_Rem a (Int128 0 0) = Some (Inl DivisionByZero)"
    "Int128_QuoRem a (Int128 0 0) = Some (Inl DivisionByZero)"
    "Int128_Quo64 a 0 = Some (Inl IntegerDivideByZero)"
    "Int128_Rem64 a 0 = Some (Inl IntegerDivideByZero)"
    "Int128_QuoRem64 a 0 = Some (Inl IntegerDivideByZero)"
    by (simp_all only: Uint128_Quo_zero Uint128_Rem_zero Uint128_QuoRem_zero Uint128_Quo64_zero
        Uint128_Rem64_zero Uint128_QuoRem64_zero Int128_Quo_zero Int128_Rem_zero
        Int128_QuoRem_zero Int128_Quo64_zero Int128_Rem64_zero Int128_QuoRem64_zero throw_def)
  have u: "b \<noteq> Uint128 0 0 \<longrightarrow>
        (\<exists>q r. Uint128_QuoRem u b = Some (Inr (q, r)))
        \<and> (\<exists>q. Uint128_Quo u b = Some (Inr q)) \<and> (\<exists>r. Uint128_Rem u b = Some (Inr r))"
  proof
    assume b: "b \<noteq> Uint128 0 0"
    from Uint128_QuoRem_correct [OF Uint128_nonzero_val [OF b], of u]
      Uint128_Quo_returns [OF b, of u] Uint128_Rem_returns [OF b, of u]
    show "(\<exists>q r. Uint128_QuoRem u b = Some (Inr (q, r)))
        \<and> (\<exists>q. Uint128_Quo u b = Some (Inr q)) \<and> (\<exists>r. Uint128_Rem u b = Some (Inr r))"
      unfolding ret_def by blast
  qed
  have u64: "n \<noteq> 0 \<longrightarrow>
        (\<exists>q r. Uint128_QuoRem64 u n = Some (Inr (q, r)))
        \<and> (\<exists>q. Uint128_Quo64 u n = Some (Inr q)) \<and> (\<exists>r. Uint128_Rem64 u n = Some (Inr r))"
  proof
    assume n: "n \<noteq> 0"
    from Uint128_QuoRem64_returns [OF n, of u]
      Uint128_Quo64_returns [OF n, of u] Uint128_Rem64_returns [OF n, of u]
    show "(\<exists>q r. Uint128_QuoRem64 u n = Some (Inr (q, r)))
        \<and> (\<exists>q. Uint128_Quo64 u n = Some (Inr q)) \<and> (\<exists>r. Uint128_Rem64 u n = Some (Inr r))"
      unfolding ret_def by blast
  qed
  have i: "c \<noteq> Int128 0 0 \<longrightarrow>
        (\<exists>q r. Int128_QuoRem a c = Some (Inr (q, r)))
        \<and> (\<exists>q. Int128_Quo a c = Some (Inr q)) \<and> (\<exists>r. Int128_Rem a c = Some (Inr r))"
    using Int128_QuoRem_returns [of c a] by blast
  have i64: "m \<noteq> 0 \<longrightarrow>
        (\<exists>q r. Int128_QuoRem64 a m = Some (Inr (q, r)))
        \<and> (\<exists>q. Int128_Quo64 a m = Some (Inr q)) \<and> (\<exists>r. Int128_Rem64 a m = Some (Inr r))"
    using Int128_QuoRem64_returns [of m a] by blast
  from z u u64 i i64 show ?thesis by (intro conjI)
qed

theorem C3_zero_divisor_panics_witness:
  "Uint128 0 2 \<noteq> Uint128 0 0 \<and> (2 :: uint64) \<noteq> 0
   \<and> Int128 0 2 \<noteq> Int128 0 0 \<and> (2 :: int64) \<noteq> 0
   \<and> (\<exists>q r. Uint128_QuoRem (Uint128 0 7) (Uint128 0 2) = Some (Inr (q, r)))
   \<and> (\<exists>q. Uint128_Quo (Uint128 0 7) (Uint128 0 2) = Some (Inr q))
   \<and> (\<exists>r. Uint128_Rem (Uint128 0 7) (Uint128 0 2) = Some (Inr r))
   \<and> (\<exists>q r. Uint128_QuoRem64 (Uint128 0 7) 2 = Some (Inr (q, r)))
   \<and> (\<exists>q. Uint128_Quo64 (Uint128 0 7) 2 = Some (Inr q))
   \<and> (\<exists>r. Uint128_Rem64 (Uint128 0 7) 2 = Some (Inr r))
   \<and> (\<exists>q r. Int128_QuoRem (Int128 0 7) (Int128 0 2) = Some (Inr (q, r)))
   \<and> (\<exists>q. Int128_Quo (Int128 0 7) (Int128 0 2) = Some (Inr q))
   \<and> (\<exists>r. Int128_Rem (Int128 0 7) (Int128 0 2) = Some (Inr r))
   \<and> (\<exists>q r. Int128_QuoRem64 (Int128 0 7) 2 = Some (Inr (q, r)))
   \<and> (\<exists>q. Int128_Quo64 (Int128 0 7) 2 = Some (Inr q))
   \<and> (\<exists>r. Int128_Rem64 (Int128 0 7) 2 = Some (Inr r))"
proof -
  have h: "Uint128 0 2 \<noteq> Uint128 0 0" "(2 :: uint64) \<noteq> 0"
    "Int128 0 2 \<noteq> Int128 0 0" "(2 :: int64) \<noteq> 0"
    by simp_all
  from C3_zero_divisor_panics [of "Uint128 0 7" "Int128 0 7" "Uint128 0 2" 2 "Int128 0 2" 2] h
  show ?thesis by (intro conjI) blast+
qed

section \<open>Two's-complement wrap-around\<close>

lemma Int128_Add_Uint128:
  "Int128_Add a b = Uint128_AsInt128 (Uint128_Add (Int128_AsUint128 a) (Int128_AsUint128 b))"
  by (simp add: Int128_Add_def Uint128_Add_def Add64_def Uint128_AsInt128_def
      Int128_AsUint128_def Let_def split: prod.splits)

lemma i128_bits_Add: "i128_bits (Int128_Add a b) = (i128_bits a + i128_bits b) mod 2 ^ 128"
  by (simp only: Int128_Add_Uint128 i128_bits_AsInt128 u128_val_Add u128_val_AsUint128)

lemma i128_bits_FromInt64: "i128_bits (Int128FromInt64 n) = sint n mod 2 ^ 128"
proof -
  obtain u where u: "u = uint n" "0 \<le> u" "u < 2 ^ 64" by (rule uint64_cases)
  show ?thesis
  proof (cases "2 ^ 63 \<le> u")
    case True
    then have s: "sint n = u - 2 ^ 64" by (simp add: sint64 u(1))
    have "(u - 2 ^ 64) mod 2 ^ 128 = (u - 2 ^ 64 + 2 ^ 128) mod 2 ^ 128"
      by (simp only: mod_add_self2)
    also have "\<dots> = u - 2 ^ 64 + 2 ^ 128" using u(2,3) by (intro mod_pos_pos_trivial) simp_all
    finally have m: "(u - 2 ^ 64) mod 2 ^ 128 = u - 2 ^ 64 + 2 ^ 128" .
    have neg: "sint n < 0" using u(3) by (simp add: s)
    have "i128_bits (Int128FromInt64 n) = (2 ^ 64 - 1) * 2 ^ 64 + u"
      using neg by (simp add: i128_bits_def Int128FromInt64_def maxUint64_def u(1))
    then show ?thesis unfolding s m by simp
  next
    case False
    then have s: "sint n = u" by (simp add: sint64 u(1))
    have nneg: "\<not> sint n < 0" using u(2) by (simp add: s)
    have "u mod 2 ^ 128 = u" using u(2,3) by (intro mod_pos_pos_trivial) simp_all
    moreover have "i128_bits (Int128FromInt64 n) = u"
      using nneg by (simp add: i128_bits_def Int128FromInt64_def u(1))
    ultimately show ?thesis unfolding s by simp
  qed
qed

lemma i128_val_wrap: "i128_val x = (i128_bits x + 2 ^ 127) mod 2 ^ 128 - 2 ^ 127"
proof -
  obtain u where u: "u = i128_bits x" "0 \<le> u" "u < 2 ^ 128"
    using i128_bits_range [of x] by simp
  show ?thesis
  proof (cases "u < 2 ^ 127")
    case True
    then have "(u + 2 ^ 127) mod 2 ^ 128 = u + 2 ^ 127"
      using u(2) by (intro mod_pos_pos_trivial) simp_all
    then show ?thesis using True by (simp add: i128_val_bits flip: u(1))
  next
    case False
    have "(u + 2 ^ 127) mod 2 ^ 128 = (u + 2 ^ 127 - 2 ^ 128) mod 2 ^ 128"
      by (simp only: minus_mod_self2)
    also have "\<dots> = u + 2 ^ 127 - 2 ^ 128"
      using False u(3) by (intro mod_pos_pos_trivial) simp_all
    finally show ?thesis using False by (simp add: i128_val_bits flip: u(1))
  qed
qed

lemma i128_bits_val_mod: "i128_bits x mod 2 ^ 128 = i128_val x mod 2 ^ 128"
proof -
  have "(i128_bits x - 2 ^ 128) mod 2 ^ 128 = i128_bits x mod 2 ^ 128" by simp
  then show ?thesis by (simp add: i128_val_bits)
qed

lemma i128_val_Add:
  "i128_val (Int128_Add a b) = (i128_val a + i128_val b + 2 ^ 127) mod 2 ^ 128 - 2 ^ 127"
proof -
  have "(i128_bits a + i128_bits b) mod 2 ^ 128 = (i128_val a + i128_val b) mod 2 ^ 128"
    using i128_bits_val_mod [of a] i128_bits_val_mod [of b] by (metis mod_add_eq)
  then have "((i128_bits a + i128_bits b) mod 2 ^ 128 + 2 ^ 127) mod 2 ^ 128
             = (i128_val a + i128_val b + 2 ^ 127) mod 2 ^ 128"
    by (metis mod_add_left_eq)
  then show ?thesis by (simp only: i128_val_wrap [of "Int128_Add a b"] i128_bits_Add)
qed

lemma i128_val_FromInt64: "i128_val (Int128FromInt64 n) = sint n"
proof -
  have r: "- (2 ^ 63) \<le> sint n" "sint n < 2 ^ 63" by (rule sint64_range)+
  have "(sint n mod 2 ^ 128 + 2 ^ 127) mod 2 ^ 128 = (sint n + 2 ^ 127) mod 2 ^ 128"
    by (simp add: mod_simps)
  also have "\<dots> = sint n + 2 ^ 127" using r by (intro mod_pos_pos_trivial) simp_all
  finally show ?thesis
    by (simp only: i128_val_wrap [of "Int128FromInt64 n"] i128_bits_FromInt64)
qed

lemma i128_val_Add64:
  "i128_val (Int128_Add64 i n) = (i128_val i + sint n + 2 ^ 127) mod 2 ^ 128 - 2 ^ 127"
  by (simp only: Int128_Add64_eq i128_val_Add i128_val_FromInt64)

text \<open>
  C4: arithmetic wraps modulo \<open>2^128\<close>.  For every \<open>Uint128\<close> \<open>a\<close>,
  \<open>a.Add(MaxUint128).Add(Uint128From64(1)) == a\<close>; \<open>MaxUint128.Inc()\<close> is the zero
  \<open>Uint128\<close>; and \<open>MaxInt128.Add64(1) == MinInt128\<close>: two's-complement wrap-around,
  neither saturating nor trapping.  In general the value of \<open>a.Add(b)\<close> is the sum of the
  values modulo \<open>2^128\<close>, the value of \<open>a.Inc()\<close> is the successor modulo \<open>2^128\<close>,
  and the values of \<open>i.Add(m)\<close> and \<open>i.Add64(n)\<close> on \<open>Int128\<close> are the exact sums
  wrapped into \<open>[-2^127, 2^127)\<close>.
\<close>

theorem C4_wraparound:
  "Uint128_Add (Uint128_Add a MaxUint128) (Uint128From64 1) = a
   \<and> Uint128_Inc MaxUint128 = zeroUint128
   \<and> Int128_Add64 MaxInt128 1 = MinInt128
   \<and> u128_val (Uint128_Add a b) = (u128_val a + u128_val b) mod 2 ^ 128
   \<and> u128_val (Uint128_Inc a) = (u128_val a + 1) mod 2 ^ 128
   \<and> i128_val (Int128_Add i m) = (i128_val i + i128_val m + 2 ^ 127) mod 2 ^ 128 - 2 ^ 127
   \<and> i128_val (Int128_Add64 i n) = (i128_val i + sint n + 2 ^ 127) mod 2 ^ 128 - 2 ^ 127"
proof -
  have "Uint128_Inc MaxUint128 = zeroUint128"
    by (simp add: Uint128_Inc_def MaxUint128_def zeroUint128_def bits_Add64_def maxUint64_def)
  moreover have "Int128_Add64 MaxInt128 1 = MinInt128"
    by (simp add: bits_Add64_def Int128_Add64_def MaxInt128_def MinInt128_def Add64_def)
  ultimately show ?thesis
    by (simp only: Uint128_Add_Max_One u128_val_Add u128_val_Inc i128_val_Add i128_val_Add64
        simp_thms)
qed

section \<open>Rotation by any amount\<close>

lemma sint_mod128: "sint k mod 128 = uint k mod 128" for k :: int64
proof -
  have "(uint k - 2 ^ 64) mod 128 = uint k mod 128"
  proof -
    have "(2 :: int) ^ 64 = 128 * 2 ^ 57" by simp
    then have "(uint k - 2 ^ 64) mod 128 = (uint k + 128 * (- (2 ^ 57))) mod 128" by simp
    also have "\<dots> = uint k mod 128" by (rule mod_mult_self2)
    finally show ?thesis .
  qed
  then show ?thesis by (simp add: sint64)
qed

lemma bit_RotateLeft_sint:
  assumes "i < 128"
  shows "bit (u128_val (Uint128_RotateLeft x k)) i
         \<longleftrightarrow> bit (u128_val x) (nat ((int i - sint k) mod 128))"
proof -
  have "(int i - sint k) mod 128 = (int i - uint k) mod 128"
    using sint_mod128 [of k] by (metis mod_diff_right_eq)
  then show ?thesis using bit_RotateLeft_int [OF assms, of x k] by simp
qed

text \<open>
  C7: \<open>RotateLeft\<close> rotates within 128 bits.  For every \<open>Uint128\<close> \<open>x\<close> and every
  \<open>int\<close> \<open>k\<close>, \<open>x.RotateLeft(k).RotateLeft(-k) == x\<close> (so \<open>RotateLeft(\<cdot>, k)\<close> is a
  bijection with inverse \<open>RotateLeft(\<cdot>, -k)\<close>); \<open>RotateLeft(x, 128) == x\<close>; a negative
  amount rotates right: for \<open>0 \<le> j < 128\<close>, bit \<open>i\<close> of \<open>x.RotateLeft(-j)\<close> is bit
  \<open>(i + j) mod 128\<close> of \<open>x\<close>; and for every \<open>k\<close>, whatever its size or sign, bit
  \<open>i\<close> of \<open>x.RotateLeft(k)\<close> is bit \<open>(i - k) mod 128\<close> of \<open>x\<close>.
\<close>

theorem C7_rotate:
  "Uint128_RotateLeft (Uint128_RotateLeft x k) (- k) = x
   \<and> Uint128_RotateLeft x 128 = x
   \<and> (\<forall>j<128. \<forall>i<128.
        bit (u128_val (Uint128_RotateLeft x (- word_of_nat j))) i
        \<longleftrightarrow> bit (u128_val x) ((i + j) mod 128))
   \<and> (\<forall>i<128.
        bit (u128_val (Uint128_RotateLeft x k)) i
        \<longleftrightarrow> bit (u128_val x) (nat ((int i - sint k) mod 128)))"
proof (intro conjI allI impI)
  show "Uint128_RotateLeft (Uint128_RotateLeft x k) (- k) = x" by (rule RotateLeft_inverse)
  show "Uint128_RotateLeft x 128 = x" by (rule RotateLeft_128)
next
  fix j i :: nat
  assume "j < 128" "i < 128"
  then show "bit (u128_val (Uint128_RotateLeft x (- word_of_nat j))) i
        \<longleftrightarrow> bit (u128_val x) ((i + j) mod 128)"
    by (rule RotateLeft_neg)
next
  fix i :: nat
  assume "i < 128"
  then show "bit (u128_val (Uint128_RotateLeft x k)) i
        \<longleftrightarrow> bit (u128_val x) (nat ((int i - sint k) mod 128))"
    by (rule bit_RotateLeft_sint)
qed

theorem C7_rotate_witness:
  "Uint128_RotateLeft (Uint128_RotateLeft (Uint128 0 1) 129) (- 129) = Uint128 0 1
   \<and> (1::nat) < 128 \<and> (127::nat) < 128
   \<and> (bit (u128_val (Uint128_RotateLeft (Uint128 0 1) (- word_of_nat 1))) 127
        \<longleftrightarrow> bit (u128_val (Uint128 0 1)) ((127 + 1) mod 128))
   \<and> (bit (u128_val (Uint128_RotateLeft (Uint128 0 1) 129)) 1
        \<longleftrightarrow> bit (u128_val (Uint128 0 1)) (nat ((int 1 - sint (129 :: int64)) mod 128)))
   \<and> nat ((int 1 - sint (129 :: int64)) mod 128) = 0"
proof -
  have h: "(1::nat) < 128" "(127::nat) < 128" by simp_all
  from C7_rotate [of "Uint128 0 1" 129]
  have a: "Uint128_RotateLeft (Uint128_RotateLeft (Uint128 0 1) 129) (- 129) = Uint128 0 1"
    and b: "\<forall>j<128. \<forall>i<128.
        bit (u128_val (Uint128_RotateLeft (Uint128 0 1) (- word_of_nat j))) i
        \<longleftrightarrow> bit (u128_val (Uint128 0 1)) ((i + j) mod 128)"
    and c: "\<forall>i<128.
        bit (u128_val (Uint128_RotateLeft (Uint128 0 1) 129)) i
        \<longleftrightarrow> bit (u128_val (Uint128 0 1)) (nat ((int i - sint (129 :: int64)) mod 128))"
    by blast+
  from b h have b': "bit (u128_val (Uint128_RotateLeft (Uint128 0 1) (- word_of_nat 1))) 127
        \<longleftrightarrow> bit (u128_val (Uint128 0 1)) ((127 + 1) mod 128)"
    by blast
  from c h(1) have c': "bit (u128_val (Uint128_RotateLeft (Uint128 0 1) 129)) 1
        \<longleftrightarrow> bit (u128_val (Uint128 0 1)) (nat ((int 1 - sint (129 :: int64)) mod 128))"
    by blast
  have d: "nat ((int 1 - sint (129 :: int64)) mod 128) = 0" by simp
  from a h b' c' d show ?thesis by blast
qed

section \<open>Byte encoding\<close>

lemma bytes64:
  fixes x :: uint64
  shows "ucast (ucast x :: byte) OR push_bit 8 (ucast (ucast (drop_bit 8 x) :: byte))
         OR push_bit 16 (ucast (ucast (drop_bit 16 x) :: byte))
         OR push_bit 24 (ucast (ucast (drop_bit 24 x) :: byte))
         OR push_bit 32 (ucast (ucast (drop_bit 32 x) :: byte))
         OR push_bit 40 (ucast (ucast (drop_bit 40 x) :: byte))
         OR push_bit 48 (ucast (ucast (drop_bit 48 x) :: byte))
         OR push_bit 56 (ucast (ucast (drop_bit 56 x) :: byte)) = x" (is "?l = x")
proof (rule bit_word_eqI)
  fix n :: nat
  assume "n < LENGTH(64)"
  then have n: "n < 64" by simp
  then consider "n < 8" | "8 \<le> n" "n < 16" | "16 \<le> n" "n < 24" | "24 \<le> n" "n < 32"
    | "32 \<le> n" "n < 40" | "40 \<le> n" "n < 48" | "48 \<le> n" "n < 56" | "56 \<le> n" "n < 64"
    by linarith
  then show "bit ?l n = bit x n"
    by cases (auto simp add: bit_simps)
qed

lemma PutBigEndian_roundtrip:
  assumes "16 \<le> length b"
  shows "\<exists>b'. Uint128_PutBigEndian a b = Inr b' \<and> length b' = length b
           \<and> drop 16 b' = drop 16 b \<and> MustUint128FromBigEndian b' = Inr a
           \<and> MustUint128FromBigEndian (take 16 b') = Inr a"
proof -
  from assms have "b \<noteq> []" by auto
  with assms show ?thesis
    by (cases a) (simp add: Uint128_PutBigEndian_def MustUint128FromBigEndian_def bytes64)
qed

lemma PutLittleEndian_roundtrip:
  assumes "16 \<le> length b"
  shows "\<exists>b'. Uint128_PutLittleEndian a b = Inr b' \<and> length b' = length b
           \<and> drop 16 b' = drop 16 b \<and> MustUint128FromLittleEndian b' = Inr a
           \<and> MustUint128FromLittleEndian (take 16 b') = Inr a"
proof -
  from assms have "b \<noteq> []" by auto
  with assms show ?thesis
    by (cases a)
      (simp add: Uint128_PutLittleEndian_def MustUint128FromLittleEndian_def bytes64)
qed

text \<open>
  C6: byte-endian serialization round-trips exactly.  For every \<open>Uint128\<close> \<open>a\<close> and
  every buffer of at least 16 bytes, \<open>MustUint128FromBigEndian\<close> applied to what
  \<open>a.PutBigEndian\<close> wrote yields \<open>a\<close>, and likewise for the little-endian pair; the
  encoding is exactly 16 bytes (the write leaves the buffer's length and everything after
  the first 16 bytes unchanged, and the first 16 bytes alone decode to \<open>a\<close>); and each
  of the four functions panics on a buffer shorter than 16 bytes.
\<close>

theorem C6_bytes_roundtrip:
  "(16 \<le> length b \<longrightarrow>
      (\<exists>b'. Uint128_PutBigEndian a b = Inr b' \<and> length b' = length b
            \<and> drop 16 b' = drop 16 b \<and> MustUint128FromBigEndian b' = Inr a
            \<and> MustUint128FromBigEndian (take 16 b') = Inr a)
      \<and> (\<exists>b'. Uint128_PutLittleEndian a b = Inr b' \<and> length b' = length b
            \<and> drop 16 b' = drop 16 b \<and> MustUint128FromLittleEndian b' = Inr a
            \<and> MustUint128FromLittleEndian (take 16 b') = Inr a))
   \<and> (length c < 16 \<longrightarrow>
      Uint128_PutBigEndian a c = Inl IndexOutOfRange
      \<and> MustUint128FromBigEndian c = Inl IndexOutOfRange
      \<and> Uint128_PutLittleEndian a c = Inl IndexOutOfRange
      \<and> MustUint128FromLittleEndian c = Inl IndexOutOfRange)"
proof (intro conjI impI)
  assume "16 \<le> length b"
  then show "\<exists>b'. Uint128_PutBigEndian a b = Inr b' \<and> length b' = length b
            \<and> drop 16 b' = drop 16 b \<and> MustUint128FromBigEndian b' = Inr a
            \<and> MustUint128FromBigEndian (take 16 b') = Inr a"
    by (rule PutBigEndian_roundtrip)
next
  assume "16 \<le> length b"
  then show "\<exists>b'. Uint128_PutLittleEndian a b = Inr b' \<and> length b' = length b
            \<and> drop 16 b' = drop 16 b \<and> MustUint128FromLittleEndian b' = Inr a
            \<and> MustUint128FromLittleEndian (take 16 b') = Inr a"
    by (rule PutLittleEndian_roundtrip)
qed (simp_all add: Uint128_PutBigEndian_def MustUint128FromBigEndian_def
      Uint128_PutLittleEndian_def MustUint128FromLittleEndian_def)

theorem C6_bytes_roundtrip_witness:
  "16 \<le> length (replicate 16 (0 :: byte))
   \<and> (\<exists>b'. Uint128_PutBigEndian (Uint128 1 2) (replicate 16 0) = Inr b'
          \<and> MustUint128FromBigEndian b' = Inr (Uint128 1 2))
   \<and> (\<exists>b'. Uint128_PutLittleEndian (Uint128 1 2) (replicate 16 0) = Inr b'
          \<and> MustUint128FromLittleEndian b' = Inr (Uint128 1 2))
   \<and> length ([] :: byte list) < 16
   \<and> MustUint128FromBigEndian [] = Inl IndexOutOfRange
   \<and> MustUint128FromLittleEndian [] = Inl IndexOutOfRange"
proof -
  have h: "16 \<le> length (replicate 16 (0 :: byte))" by simp
  have e: "length ([] :: byte list) < 16" by simp
  from C6_bytes_roundtrip [of "replicate 16 0" "Uint128 1 2" "[]"] h e
  show ?thesis by blast
qed

section \<open>Decoding out-of-range payloads\<close>

lemma parse_2p128:
  "big_SetString10 ''340282366920938463463374607431768211456''
     = Some 340282366920938463463374607431768211456"
  by (simp add: big_SetString10_def digit_of_def)

lemma parse_2p127:
  "big_SetString10 ''170141183460469231731687303715884105728''
     = Some 170141183460469231731687303715884105728"
  by (simp add: big_SetString10_def digit_of_def)

lemma parse_m2p127m1:
  "big_SetString10 ''-170141183460469231731687303715884105729''
     = Some (- 170141183460469231731687303715884105729)"
  by (simp add: big_SetString10_def digit_of_def)

lemma words_2p128: "big_Bits 340282366920938463463374607431768211456 = [0, 0, 1]"
  by (simp add: big_Bits_def big_words.simps)

lemma words_2p127: "big_Bits 170141183460469231731687303715884105728 = [0, 0x8000000000000000]"
  by (simp add: big_Bits_def big_words.simps)

lemma words_m2p127m1:
  "big_Bits (- 170141183460469231731687303715884105729) = [1, 0x8000000000000000]"
  by (simp add: big_Bits_def big_words.simps)

lemma AsBigInt_MaxUint128: "Uint128_AsBigInt MaxUint128 = 340282366920938463463374607431768211455"
  by (simp add: Uint128_AsBigInt_def MaxUint128_def maxUint64_def)

lemma AsBigInt_MaxInt128: "Int128_AsBigInt MaxInt128 = 170141183460469231731687303715884105727"
  by (simp add: Int128_AsBigInt_def MaxInt128_def int128SignBit_def push_bit_eq_mult)

lemma AsBigInt_MinInt128: "Int128_AsBigInt MinInt128 = - 170141183460469231731687303715884105728"
  by (simp add: Int128_AsBigInt_def MinInt128_def int128SignBit_def push_bit_eq_mult
      maxBigUint128_def)

lemma digits_MaxUint128:
  "digits10 340282366920938463463374607431768211455 = ''340282366920938463463374607431768211455''"
  by (simp add: digits10.simps)

lemma digits_MaxInt128:
  "digits10 170141183460469231731687303715884105727 = ''170141183460469231731687303715884105727''"
  by (simp add: digits10.simps)

lemma digits_MinInt128:
  "digits10 170141183460469231731687303715884105728 = ''170141183460469231731687303715884105728''"
  by (simp add: digits10.simps)

text \<open>
  C8: a payload that \<open>UnmarshalText\<close> or \<open>UnmarshalJSON\<close> accepts is claimed to round-trip,
  out-of-range numbers being rejected.  The code discards the range flag of
  \<open>Uint128FromString\<close> and \<open>Int128FromString\<close>: the payload denoting \<open>2^128\<close> is accepted by
  both \<open>Uint128\<close> decoders and decoded to \<open>MaxUint128\<close>, which serializes to
  \<open>2^128 - 1\<close>; the payload denoting \<open>2^127\<close> is accepted by both \<open>Int128\<close> decoders and
  decoded to \<open>MaxInt128\<close>, which serializes to \<open>2^127 - 1\<close>; and the payload denoting
  \<open>-2^127 - 1\<close> is decoded to \<open>MinInt128\<close>, which serializes to \<open>-2^127\<close>.
\<close>

theorem C8_unmarshal_clamps:
  "big_SetString10 ''340282366920938463463374607431768211456'' = Some (2 ^ 128)
   \<and> Uint128_UnmarshalText ''340282366920938463463374607431768211456'' = Inr MaxUint128
   \<and> Uint128_UnmarshalJSON (CHR 0x22 # ''340282366920938463463374607431768211456'' @ [CHR 0x22])
       = Inr MaxUint128
   \<and> Uint128_MarshalText MaxUint128 = ''340282366920938463463374607431768211455''
   \<and> big_SetString10 ''170141183460469231731687303715884105728'' = Some (2 ^ 127)
   \<and> Int128_UnmarshalText ''170141183460469231731687303715884105728'' = Inr MaxInt128
   \<and> Int128_UnmarshalJSON (CHR 0x22 # ''170141183460469231731687303715884105728'' @ [CHR 0x22])
       = Inr MaxInt128
   \<and> Int128_MarshalText MaxInt128 = ''170141183460469231731687303715884105727''
   \<and> big_SetString10 ''-170141183460469231731687303715884105729'' = Some (- (2 ^ 127) - 1)
   \<and> Int128_UnmarshalText ''-170141183460469231731687303715884105729'' = Inr MinInt128
   \<and> Int128_MarshalText MinInt128 = ''-170141183460469231731687303715884105728''"
proof -
  have 1: "big_SetString10 ''340282366920938463463374607431768211456'' = Some (2 ^ 128)"
    by (simp add: parse_2p128)
  have 2: "Uint128_UnmarshalText ''340282366920938463463374607431768211456'' = Inr MaxUint128"
    by (simp add: Uint128_UnmarshalText_def Uint128FromString_def parse_2p128
        Uint128FromBigInt_def words_2p128)
  have 3: "Uint128_UnmarshalJSON
             (CHR 0x22 # ''340282366920938463463374607431768211456'' @ [CHR 0x22])
           = Inr MaxUint128"
    by (simp add: Uint128_UnmarshalJSON_def Uint128FromString_def parse_2p128
        Uint128FromBigInt_def words_2p128)
  have 4: "Uint128_MarshalText MaxUint128 = ''340282366920938463463374607431768211455''"
    by (simp add: Uint128_MarshalText_def Uint128_String_def AsBigInt_MaxUint128 big_String_def
        digits_MaxUint128)
      (simp add: MaxUint128_def maxUint64_def)
  have 5: "big_SetString10 ''170141183460469231731687303715884105728'' = Some (2 ^ 127)"
    by (simp add: parse_2p127)
  have 6: "Int128_UnmarshalText ''170141183460469231731687303715884105728'' = Inr MaxInt128"
    by (simp add: Int128_UnmarshalText_def Int128FromString_def parse_2p127
        Int128FromBigInt_def words_2p127 Uint128_Cmp_def maxInt128AsUint128_def)
  have 7: "Int128_UnmarshalJSON
             (CHR 0x22 # ''170141183460469231731687303715884105728'' @ [CHR 0x22])
           = Inr MaxInt128"
    by (simp add: Int128_UnmarshalJSON_def Int128FromString_def parse_2p127
        Int128FromBigInt_def words_2p127 Uint128_Cmp_def maxInt128AsUint128_def)
  have 8: "Int128_MarshalText MaxInt128 = ''170141183460469231731687303715884105727''"
    by (simp add: Int128_MarshalText_def Int128_String_def AsBigInt_MaxInt128 big_String_def
        digits_MaxInt128)
  have 9: "big_SetString10 ''-170141183460469231731687303715884105729'' = Some (- (2 ^ 127) - 1)"
    by (simp add: parse_m2p127m1)
  have 10: "Int128_UnmarshalText ''-170141183460469231731687303715884105729'' = Inr MinInt128"
    by (simp add: Int128_UnmarshalText_def Int128FromString_def parse_m2p127m1
        Int128FromBigInt_def words_m2p127m1 Uint128_Cmp_def minInt128AsAbsUint128_def)
  have 11: "Int128_MarshalText MinInt128 = ''-170141183460469231731687303715884105728''"
    by (simp add: Int128_MarshalText_def Int128_String_def AsBigInt_MinInt128 big_String_def
        digits_MinInt128)
  from 1 2 3 4 5 6 7 8 9 10 11 show ?thesis by (intro conjI)
qed

end
